theory Spec2Isabelle
  imports Main "HOL-Library.Sublist" "HOL-Library.Monad_Syntax"
begin

section \<open>JavaScript string primitives\<close>

text \<open>
  Texts are lists of characters; one \<^typ>\<open>char\<close> stands for one code unit of the
  JavaScript string. Offsets are code-unit counts, as in the source.
\<close>

text \<open>The backslash, the line feed and the single quote, which a string literal cannot hold.\<close>

abbreviation BS :: char where
  "BS \<equiv> CHR 0x5C"

abbreviation NL :: char where
  "NL \<equiv> CHR 0x0A"

abbreviation SQ :: char where
  "SQ \<equiv> CHR 0x27"

text \<open>\<^verbatim>\<open>s.substring(a, b)\<close>: both arguments are clamped to \<open>[0, length]\<close> and swapped when
  the first exceeds the second.\<close>

definition clamp_index :: "string \<Rightarrow> int \<Rightarrow> nat" where
  "clamp_index s i = (if i < 0 then 0 else min (nat i) (length s))"

definition js_substring :: "string \<Rightarrow> int \<Rightarrow> int \<Rightarrow> string" where
  "js_substring s a b =
     (let a' = clamp_index s a; b' = clamp_index s b;
          lo = min a' b'; hi = max a' b'
      in take (hi - lo) (drop lo s))"

text \<open>\<^verbatim>\<open>s.substring(a)\<close>: from the clamped index to the end.\<close>

definition js_substring_from :: "string \<Rightarrow> int \<Rightarrow> string" where
  "js_substring_from s a = drop (clamp_index s a) s"

text \<open>The class \<^verbatim>\<open>\s\<close> and \<^verbatim>\<open>trim()\<close>, on the code units below 256: tab, line feed,
  vertical tab, form feed, carriage return, space and no-break space.\<close>

definition is_space :: "char \<Rightarrow> bool" where
  "is_space c = (c \<in> set [CHR 0x09, CHR 0x0A, CHR 0x0B, CHR 0x0C, CHR 0x0D, CHR 0x20, CHR 0xA0])"

definition trim :: "string \<Rightarrow> string" where
  "trim s = rev (dropWhile is_space (rev (dropWhile is_space s)))"

definition is_digit :: "char \<Rightarrow> bool" where
  "is_digit c = (c \<in> set ''0123456789'')"

text \<open>\<^verbatim>\<open>s.search(/literal/)\<close>: the index of the first occurrence; \<open>None\<close> stands for -1.\<close>

fun search_lit :: "string \<Rightarrow> string \<Rightarrow> nat option" where
  "search_lit p [] = (if p = [] then Some 0 else None)"
| "search_lit p (c # cs) =
     (if prefix p (c # cs) then Some 0 else map_option Suc (search_lit p cs))"

definition js_includes :: "string \<Rightarrow> string \<Rightarrow> bool" where
  "js_includes s p = (search_lit p s \<noteq> None)"

definition endsWith :: "string \<Rightarrow> string \<Rightarrow> bool" where
  "endsWith s p = suffix p s"

subsection \<open>Regular expressions as matchers\<close>

text \<open>
  A regular expression of the source is modelled by a matcher: a function that tries the
  expression at the head of a text and returns what it captured together with the text
  left after the match. The pieces below are the ones the source's expressions are built
  from. A greedy run is taken at its full length: in the expressions of the source a run is
  followed either by a character outside its class, so that no shorter run can match, or
  by a lazy body or nothing, so that the full run is the engine's first successful choice.
\<close>

text \<open>A literal.\<close>

definition lit :: "string \<Rightarrow> string \<Rightarrow> string option" where
  "lit p s = (if prefix p s then Some (drop (length p) s) else None)"

text \<open>\<^verbatim>\<open>[class]*\<close> and \<^verbatim>\<open>[class]+\<close>, greedy: the run and the rest.\<close>

definition run0 :: "(char \<Rightarrow> bool) \<Rightarrow> string \<Rightarrow> string \<times> string" where
  "run0 P s = (takeWhile P s, dropWhile P s)"

definition run1 :: "(char \<Rightarrow> bool) \<Rightarrow> string \<Rightarrow> (string \<times> string) option" where
  "run1 P s = (if takeWhile P s = [] then None else Some (takeWhile P s, dropWhile P s))"

text \<open>\<^verbatim>\<open>([\s\S]*?)END\<close>: the text up to the first occurrence of \<open>END\<close>, and the rest
  after it.\<close>

definition lazy_until :: "string \<Rightarrow> string \<Rightarrow> (string \<times> string) option" where
  "lazy_until e s =
     (case search_lit e s of
        None \<Rightarrow> None
      | Some k \<Rightarrow> Some (take k s, drop (k + length e) s))"

text \<open>Length of a match, from the text it started on and the text left after it.\<close>

definition consumed :: "string \<Rightarrow> string \<Rightarrow> nat" where
  "consumed s rest = length s - length rest"

text \<open>
  \<^verbatim>\<open>s.replace(/re/g, callback)\<close>: the text is scanned from the left; where the matcher
  succeeds the replacement is emitted and the scan resumes after the match, elsewhere
  the character is copied. A matcher gives the length of its match (at least 1 for every
  expression of the source) and the replacement.
\<close>

fun replace_all :: "(string \<Rightarrow> (nat \<times> string) option) \<Rightarrow> string \<Rightarrow> string" where
  "replace_all m [] = []"
| "replace_all m (c # cs) =
     (case m (c # cs) of
        Some (n, r) \<Rightarrow> r @ replace_all m (drop (n - 1) cs)
      | None \<Rightarrow> c # replace_all m cs)"

text \<open>The same with a callback that counts its calls (\<^verbatim>\<open>counter++\<close> in the callback).\<close>

fun replace_all_counting :: "(nat \<Rightarrow> string \<Rightarrow> (nat \<times> string) option) \<Rightarrow> nat \<Rightarrow> string \<Rightarrow> string" where
  "replace_all_counting m k [] = []"
| "replace_all_counting m k (c # cs) =
     (case m k (c # cs) of
        Some (n, r) \<Rightarrow> r @ replace_all_counting m (Suc k) (drop (n - 1) cs)
      | None \<Rightarrow> c # replace_all_counting m k cs)"

text \<open>\<^verbatim>\<open>s.replace(/re/, r)\<close> without the global flag: only the first match is replaced.\<close>

fun replace_first :: "(string \<Rightarrow> (nat \<times> string) option) \<Rightarrow> string \<Rightarrow> string" where
  "replace_first m [] = []"
| "replace_first m (c # cs) =
     (case m (c # cs) of
        Some (n, r) \<Rightarrow> r @ drop (n - 1) cs
      | None \<Rightarrow> c # replace_first m cs)"

text \<open>\<^verbatim>\<open>s.match(/re/)\<close> without the global flag: the first position where the matcher
  succeeds, with its result.\<close>

fun first_match :: "(string \<Rightarrow> 'a option) \<Rightarrow> string \<Rightarrow> 'a option" where
  "first_match m [] = None"
| "first_match m (c # cs) =
     (case m (c # cs) of Some a \<Rightarrow> Some a | None \<Rightarrow> first_match m cs)"

text \<open>
  \<^verbatim>\<open>while ((match = re.exec(text)) !== null)\<close> with a global expression: every match
  from the left, each with its \<^verbatim>\<open>match.index\<close> and full text; the scan resumes
  after a match. The first argument of the scan is the index of the head of the text.
\<close>

fun exec_all :: "(string \<Rightarrow> (nat \<times> 'a) option) \<Rightarrow> nat \<Rightarrow> string \<Rightarrow> (nat \<times> string \<times> 'a) list" where
  "exec_all m i [] = []"
| "exec_all m i (c # cs) =
     (case m (c # cs) of
        Some (n, a) \<Rightarrow> (i, take n (c # cs), a) # exec_all m (i + n) (drop (n - 1) cs)
      | None \<Rightarrow> exec_all m (Suc i) cs)"

text \<open>\<^verbatim>\<open>([\s\S]*?)\<close> followed by an expression given as a matcher: the shortest body after
  which the matcher succeeds, and the text left after it.\<close>

fun lazy_until_match :: "(string \<Rightarrow> string option) \<Rightarrow> string \<Rightarrow> (string \<times> string) option" where
  "lazy_until_match m [] = (case m [] of Some r \<Rightarrow> Some ([], r) | None \<Rightarrow> None)"
| "lazy_until_match m (c # cs) =
     (case m (c # cs) of
        Some r \<Rightarrow> Some ([], r)
      | None \<Rightarrow> map_option (\<lambda>(b, r). (c # b, r)) (lazy_until_match m cs))"

subsection \<open>Numbers and case\<close>

text \<open>Decimal rendering of a non-negative integer in a template literal.\<close>

definition digit_of :: "nat \<Rightarrow> char" where
  "digit_of d = ''0123456789'' ! d"

function show_nat :: "nat \<Rightarrow> string" where
  "show_nat n = (if n < 10 then [digit_of n] else show_nat (n div 10) @ [digit_of (n mod 10)])"
  by pat_completeness auto
termination
  by (relation "measure id") auto

declare show_nat.simps [simp del]

text \<open>\<^verbatim>\<open>parseInt\<close> on a run of decimal digits (exact below \<open>2^53\<close>).\<close>

definition digit_value :: "char \<Rightarrow> nat" where
  "digit_value c = (case map_of (zip ''0123456789'' [0, 1, 2, 3, 4, 5, 6, 7, 8, 9]) c of
                      Some d \<Rightarrow> d | None \<Rightarrow> 0)"

definition parseInt :: "string \<Rightarrow> nat" where
  "parseInt ds = foldl (\<lambda>a c. 10 * a + digit_value c) 0 ds"

text \<open>\<^verbatim>\<open>toLowerCase()\<close> on the letters A to Z. Other code units are left as they are;
  the only use of the result replaces every code unit outside \<^verbatim>\<open>[a-z0-9]\<close> anyway.\<close>

definition upper_char :: "char \<Rightarrow> char" where
  "upper_char c =
     (case map_of (zip ''abcdefghijklmnopqrstuvwxyz'' ''ABCDEFGHIJKLMNOPQRSTUVWXYZ'') c of
        Some u \<Rightarrow> u | None \<Rightarrow> c)"

definition lower_char :: "char \<Rightarrow> char" where
  "lower_char c =
     (case map_of (zip ''ABCDEFGHIJKLMNOPQRSTUVWXYZ'' ''abcdefghijklmnopqrstuvwxyz'') c of
        Some l \<Rightarrow> l | None \<Rightarrow> c)"

definition toLowerCase :: "string \<Rightarrow> string" where
  "toLowerCase s = map lower_char s"

definition is_alnum :: "char \<Rightarrow> bool" where
  "is_alnum c = (c \<in> set ''abcdefghijklmnopqrstuvwxyz0123456789'')"

text \<open>\<^verbatim>\<open>.replace(/[^a-z0-9]+/g, '-')\<close>.\<close>

function sanitize :: "string \<Rightarrow> string" where
  "sanitize [] = []"
| "sanitize (c # cs) =
     (if is_alnum c then c # sanitize cs
      else CHR ''-'' # sanitize (dropWhile (\<lambda>x. \<not> is_alnum x) cs))"
  by pat_completeness auto
termination
  by (relation "measure length") (auto simp: le_imp_less_Suc [OF length_dropWhile_le])

section \<open>Extracted elements\<close>

text \<open>
  Every extractor pushes objects that share \<^verbatim>\<open>type\<close>, \<^verbatim>\<open>fullMatch\<close> and
  \<^verbatim>\<open>startIndex\<close>; the remaining fields depend on the type and are kept in the order
  of the source: a theorem has envName, number, label, title, content and typeCount; a proof
  has title, content, proofNumber and stableId; a section has level and title; a figure has
  content; an enumerate has listType and content; an itemize has content.
\<close>

datatype detail =
    TheoremD string string "string option" "string option" string nat
  | ProofD (ptitle: string) (pcontent: string) (proofNumber: nat) (stable_id: string)
  | SectionD (level: string) (stitle: string)
  | FigureD string
  | EnumerateD "string option" string
  | ItemizeD string

record element =
  startIndex :: nat
  fullMatch :: string
  detail :: detail

datatype kind = Theorem | Proof | Section | Figure | Enumerate | Itemize

fun kind_of :: "detail \<Rightarrow> kind" where
  "kind_of (TheoremD _ _ _ _ _ _) = Theorem"
| "kind_of (ProofD _ _ _ _) = Proof"
| "kind_of (SectionD _ _) = Section"
| "kind_of (FigureD _) = Figure"
| "kind_of (EnumerateD _ _) = Enumerate"
| "kind_of (ItemizeD _) = Itemize"

section \<open>The label table: parseAuxFile\<close>

record label_entry =
  number :: string
  page :: string
  title :: string
  anchor :: string

text \<open>The table \<^verbatim>\<open>labels\<close> is a map from label names to the entries stored by
  parseAuxFile (the own properties of the object).\<close>

type_synonym labels = "string \<rightharpoonup> label_entry"

text \<open>
  The table is created as \<^verbatim>\<open>const labels = {}\<close>, a plain object, and read with
  \<^verbatim>\<open>auxData.labels[label]\<close>: a name with no entry of its own is looked up in
  \<^verbatim>\<open>Object.prototype\<close>, whose properties (functions, and the prototype itself for
  \<^verbatim>\<open>__proto__\<close>) are truthy values with no property \<^verbatim>\<open>number\<close> or
  \<^verbatim>\<open>anchor\<close>. A record named \<^verbatim>\<open>__proto__\<close> in an aux file would replace the
  prototype of the table instead of adding an entry; tables with such a record are not
  modelled.
\<close>

definition object_prototype_names :: "string list" where
  "object_prototype_names =
     [''constructor'', ''__defineGetter__'', ''__defineSetter__'', ''hasOwnProperty'',
      ''__lookupGetter__'', ''__lookupSetter__'', ''isPrototypeOf'', ''propertyIsEnumerable'',
      ''toString'', ''valueOf'', ''__proto__'', ''toLocaleString'']"

datatype lookup = Missing | Own label_entry | Inherited

definition js_lookup :: "labels \<Rightarrow> string \<Rightarrow> lookup" where
  "js_lookup auxLabels label =
     (case auxLabels label of
        Some entry \<Rightarrow> Own entry
      | None \<Rightarrow> if label \<in> set object_prototype_names then Inherited else Missing)"









section \<open>Content of theorem and proof bodies\<close>

subsection \<open>convertListsInContent\<close>

text \<open>\<^verbatim>\<open>(?:\[([^\]]+)\])?\<close> is tried first and, when the rest of the expression cannot
  match after it, skipped, as the backtracking engine does.\<close>

definition bracket_group :: "string \<Rightarrow> (string \<times> string) option" where
  "bracket_group s =
     do {
       r1 \<leftarrow> lit ''['' s;
       (t, r2) \<leftarrow> run1 (\<lambda>c. c \<noteq> CHR '']'') r1;
       r3 \<leftarrow> lit '']'' r2;
       Some (t, r3)
     }"

text \<open>
  \<^verbatim>\<open>BEGIN(?:\[([^\]]+)\])?([\s\S]*?)END\<close> at the head of a text: the optional
  capture, the body, and the length of the match.
\<close>

definition env_with_option :: "string \<Rightarrow> string \<Rightarrow> string \<Rightarrow> (nat \<times> string option \<times> string) option" where
  "env_with_option b e s =
     do {
       r1 \<leftarrow> lit b s;
       (case (do { (t, r2) \<leftarrow> bracket_group r1; (body, r3) \<leftarrow> lazy_until e r2;
                   Some (consumed s r3, Some t, body) }) of
          Some res \<Rightarrow> Some res
        | None \<Rightarrow> do { (body, r3) \<leftarrow> lazy_until e r1; Some (consumed s r3, None, body) })
     }"

text \<open>\<^verbatim>\<open>/\\setcounter\{enumi+\}\{[^}]+\}/g\<close>, \<^verbatim>\<open>/\\stepcounter\{enumi+\}/g\<close> and
  \<^verbatim>\<open>/\\addtocounter\{enumi+\}\{[^}]+\}/g\<close>, each replaced by the empty string.\<close>

definition counter_command :: "string \<Rightarrow> bool \<Rightarrow> string \<Rightarrow> (nat \<times> string) option" where
  "counter_command name with_value s =
     do {
       r1 \<leftarrow> lit (BS # name @ ''{enum'') s;
       (_, r2) \<leftarrow> run1 (\<lambda>c. c = CHR ''i'') r1;
       r3 \<leftarrow> lit ''}'' r2;
       if with_value then
         do {
           r4 \<leftarrow> lit ''{'' r3;
           (_, r5) \<leftarrow> run1 (\<lambda>c. c \<noteq> CHR ''}'') r4;
           r6 \<leftarrow> lit ''}'' r5;
           Some (consumed s r6, [])
         }
       else Some (consumed s r3, [])
     }"

text \<open>\<^verbatim>\<open>/\\item\s*/g\<close> replaced by \<^verbatim>\<open></li><li>\<close>.\<close>

definition item_command :: "string \<Rightarrow> (nat \<times> string) option" where
  "item_command s =
     do {
       r1 \<leftarrow> lit (BS # ''item'') s;
       let (_, r2) = run0 is_space r1;
       Some (consumed s r2, ''</li><li>'')
     }"

text \<open>The three steps shared by every list generator: items become boundaries, a leading
  \<^verbatim>\<open></li>\<close> is removed (\<^verbatim>\<open>/^<\/li>/\<close>), a closing one is added when missing.\<close>

definition list_items :: "string \<Rightarrow> string" where
  "list_items content =
     (let c1 = replace_all item_command content;
          c2 = (case lit ''</li>'' c1 of Some r \<Rightarrow> r | None \<Rightarrow> c1)
      in if endsWith c2 ''</li>'' then c2 else c2 @ ''</li>'')"

text \<open>\<^verbatim>\<open>match.match(/\\setcounter\{enumi\}\{(\d+)\}/)\<close>: the digits of the first such
  command.\<close>

definition setcounter_value :: "string \<Rightarrow> string option" where
  "setcounter_value s =
     do {
       r1 \<leftarrow> lit (BS # ''setcounter{enumi}{'') s;
       (ds, r2) \<leftarrow> run1 is_digit r1;
       r3 \<leftarrow> lit ''}'' r2;
       Some ds
     }"

text \<open>The style attribute chosen from the optional argument of an enumerate.\<close>

definition list_type_attr :: "string option \<Rightarrow> string" where
  "list_type_attr optType =
     (case optType of
        None \<Rightarrow> []
      | Some t \<Rightarrow>
          if t = [] then []
          else if js_includes t ''(a)'' then '' style=\"list-style-type: lower-alpha;\"''
          else if js_includes t ''(i)'' then '' style=\"list-style-type: lower-roman;\"''
          else if js_includes t ''(A)'' then '' style=\"list-style-type: upper-alpha;\"''
          else if js_includes t ''(I)'' then '' style=\"list-style-type: upper-roman;\"''
          else [])"

text \<open>The callback of the enumerate replacement; \<open>whole\<close> is the matched text.\<close>

definition enumerate_in_content :: "string \<Rightarrow> string option \<Rightarrow> string \<Rightarrow> string" where
  "enumerate_in_content whole optType enumContent =
     (let l0 = trim enumContent;
          l1 = replace_all (counter_command ''setcounter'' True) l0;
          l2 = replace_all (counter_command ''stepcounter'' False) l1;
          l3 = replace_all (counter_command ''addtocounter'' True) l2;
          listContent = list_items l3;
          startAttr = (case first_match setcounter_value whole of
                         Some ds \<Rightarrow> '' start=\"'' @ show_nat (parseInt ds + 1) @ ''\"''
                       | None \<Rightarrow> []);
          typeAttr = list_type_attr optType
      in ''<ol'' @ typeAttr @ startAttr @ ''>'' @ listContent @ ''</ol>'')"

definition enumerate_env :: "string \<Rightarrow> (nat \<times> string option \<times> string) option" where
  "enumerate_env = env_with_option (BS # ''begin{enumerate}'') (BS # ''end{enumerate}'')"

text \<open>\<^verbatim>\<open>/\\begin\{itemize\}([\s\S]*?)\\end\{itemize\}/g\<close>.\<close>

definition itemize_env :: "string \<Rightarrow> (nat \<times> string) option" where
  "itemize_env s =
     do {
       r1 \<leftarrow> lit (BS # ''begin{itemize}'') s;
       (body, r2) \<leftarrow> lazy_until (BS # ''end{itemize}'') r1;
       Some (consumed s r2, body)
     }"

definition convertListsInContent :: "string \<Rightarrow> string" where
  "convertListsInContent content =
     (let c1 = replace_all
                 (\<lambda>s. case enumerate_env s of
                         None \<Rightarrow> None
                       | Some (n, optType, enumContent) \<Rightarrow>
                           Some (n, enumerate_in_content (take n s) optType enumContent))
                 content
      in replace_all
           (\<lambda>s. case itemize_env s of
                   None \<Rightarrow> None
                 | Some (n, itemContent) \<Rightarrow>
                     Some (n, ''<ul>'' @ list_items (trim itemContent) @ ''</ul>''))
           c1)"

subsection \<open>processFiguresInContent\<close>

text \<open>
  \<^verbatim>\<open>/\\begin\{figure\}\s*([\s\S]*?)\\end\{figure\}/g\<close>. The callback that renders the
  body of a figure (captions, minipages, images with sizes computed in floating point) is a
  parameter \<open>figureHtml\<close>.
\<close>

definition figure_in_content :: "string \<Rightarrow> (nat \<times> string) option" where
  "figure_in_content s =
     do {
       r1 \<leftarrow> lit (BS # ''begin{figure}'') s;
       let (_, r2) = run0 is_space r1;
       (figContent, r3) \<leftarrow> lazy_until (BS # ''end{figure}'') r2;
       Some (consumed s r3, figContent)
     }"

definition processFiguresInContent :: "(string \<Rightarrow> string) \<Rightarrow> string \<Rightarrow> string" where
  "processFiguresInContent figureHtml content =
     replace_all
       (\<lambda>s. case figure_in_content s of
               None \<Rightarrow> None
             | Some (n, figContent) \<Rightarrow> Some (n, figureHtml figContent))
       content"

subsection \<open>processNestedProofs\<close>

text \<open>The two glyphs of the templates are one code unit each, U+25BC and U+25A1, beyond the
  range of \<^typ>\<open>char\<close>. Each is represented by one character that occurs nowhere else in
  the templates, so that lengths and positions count code units as the code does.\<close>

definition glyph_down :: string where
  "glyph_down = [CHR 0x1E]"

definition glyph_box :: string where
  "glyph_box = [CHR 0x1F]"

definition begin_proof :: string where
  "begin_proof = BS # ''begin{proof}''"

definition end_proof :: string where
  "end_proof = BS # ''end{proof}''"

text \<open>
  \<^verbatim>\<open>/\\begin\{proof\}(?:\[([^\]]+)\])?([\s\S]*?)\\end\{proof\}/g\<close>. The callback reads
  the clock: \<open>clock k\<close> is the value of \<^verbatim>\<open>Date.now()\<close> at the call for the match
  numbered \<open>k\<close> (\<^verbatim>\<open>subproofCounter\<close>).
\<close>

definition subproof_html :: "string \<Rightarrow> string option \<Rightarrow> string \<Rightarrow> string" where
  "subproof_html subproofId ttl cleanContent =
     ''<div class=\"subproof collapsed\" data-subproof-id=\"'' @ subproofId @ ''\">'' @ [NL] @
     ''      <div class=\"subproof-header\">'' @ [NL] @
     ''        <button class=\"subproof-toggle\" onclick=\"toggleSubproof('' @ [SQ] @ subproofId @
       [SQ] @ '')\" aria-expanded=\"false\">'' @ [NL] @
     ''          <span class=\"subproof-toggle-icon\">'' @ glyph_down @ ''</span>'' @ [NL] @
     ''          <strong>'' @ (case ttl of None \<Rightarrow> ''Proof'' | Some t \<Rightarrow> if t = [] then ''Proof'' else t)
       @ ''</strong>'' @ [NL] @
     ''        </button>'' @ [NL] @
     ''      </div>'' @ [NL] @
     ''      <div class=\"subproof-content\" id=\"'' @ subproofId @ ''\">'' @ [NL] @
     ''        '' @ cleanContent @ [NL] @
     ''        <span class=\"proof-end\">'' @ glyph_box @ ''</span>'' @ [NL] @
     ''      </div>'' @ [NL] @
     ''    </div>''"

definition nested_proof :: "(nat \<Rightarrow> nat) \<Rightarrow> nat \<Rightarrow> string \<Rightarrow> (nat \<times> string) option" where
  "nested_proof clock subproofCounter s =
     (case env_with_option begin_proof end_proof s of
        None \<Rightarrow> None
      | Some (n, ttl, proofContent) \<Rightarrow>
          let cleanContent = convertListsInContent (trim proofContent);
              subproofId = ''subproof-'' @ show_nat (clock subproofCounter) @ ''-'' @ show_nat subproofCounter
          in Some (n, subproof_html subproofId ttl cleanContent))"

definition processNestedProofs :: "(nat \<Rightarrow> nat) \<Rightarrow> string \<Rightarrow> string" where
  "processNestedProofs clock content = replace_all_counting (nested_proof clock) 0 content"

section \<open>Extractors\<close>

subsection \<open>extractTheorems\<close>

definition theoremTypes :: "string list" where
  "theoremTypes = [''theorem'', ''lemma'', ''proposition'', ''corollary'', ''definition'',
     ''example'', ''remark'', ''conjecture'', ''claim'', ''fact'', ''notation'', ''axiom'',
     ''construction'', ''exercise'', ''problem'']"

text \<open>
  \<^verbatim>\<open>\\begin\{(theorem|...)\}(?:\[([^\]]+)\])?([\s\S]*?)\\end\{\1\}\<close>: the environment
  name is the one whose \<^verbatim>\<open>\begin{name}\<close> stands at the head of the text.
\<close>

definition theoremRegex :: "string \<Rightarrow> (nat \<times> string \<times> string option \<times> string) option" where
  "theoremRegex s =
     (case find (\<lambda>n. prefix (BS # ''begin{'' @ n @ ''}'') s) theoremTypes of
        None \<Rightarrow> None
      | Some envName \<Rightarrow>
          (case env_with_option (BS # ''begin{'' @ envName @ ''}'') (BS # ''end{'' @ envName @ ''}'') s of
             None \<Rightarrow> None
           | Some (n, optionalTitle, content) \<Rightarrow> Some (n, envName, optionalTitle, content)))"

text \<open>\<^verbatim>\<open>/\\label\{([^}]+)\}/\<close>: length of the match and the name.\<close>

definition label_command :: "string \<Rightarrow> (nat \<times> string) option" where
  "label_command s =
     do {
       r1 \<leftarrow> lit (BS # ''label{'') s;
       (l, r2) \<leftarrow> run1 (\<lambda>c. c \<noteq> CHR ''}'') r1;
       r3 \<leftarrow> lit ''}'' r2;
       Some (consumed s r3, l)
     }"

text \<open>The body of the loop, for the matches in order; \<open>typeCounts\<close> is threaded along.
  The field \<^verbatim>\<open>number\<close> is only ever written into templates, so the value
  \<^verbatim>\<open>undefined\<close> that a label with an inherited name gives is kept as the text
  \<^verbatim>\<open>undefined\<close>.\<close>

fun theorem_elements ::
  "labels \<Rightarrow> (string \<Rightarrow> string) \<Rightarrow> (string \<rightharpoonup> nat) \<Rightarrow>
   (nat \<times> string \<times> string \<times> string option \<times> string) list \<Rightarrow> element list" where
  "theorem_elements auxLabels figureHtml typeCounts [] = []"
| "theorem_elements auxLabels figureHtml typeCounts ((idx, whole, envName, optionalTitle, content) # ms) =
     (let label = map_option snd (first_match label_command content);
          num = (case label of
                   None \<Rightarrow> ''?''
                 | Some l \<Rightarrow>
                     (case js_lookup auxLabels l of
                        Missing \<Rightarrow> ''?''
                      | Own entry \<Rightarrow> number entry
                      | Inherited \<Rightarrow> ''undefined''));
          c1 = trim (replace_first (\<lambda>s. map_option (\<lambda>(n, _). (n, [])) (label_command s)) content);
          c2 = convertListsInContent c1;
          cleanContent = processFiguresInContent figureHtml c2;
          typeCount = (case typeCounts envName of None \<Rightarrow> 0 | Some k \<Rightarrow> k) + 1
      in \<lparr>startIndex = idx, fullMatch = whole,
          detail = TheoremD envName num label optionalTitle cleanContent typeCount\<rparr>
         # theorem_elements auxLabels figureHtml (typeCounts(envName \<mapsto> typeCount)) ms)"

definition extractTheorems :: "labels \<Rightarrow> (string \<Rightarrow> string) \<Rightarrow> string \<Rightarrow> element list" where
  "extractTheorems auxLabels figureHtml text =
     theorem_elements auxLabels figureHtml Map.empty (exec_all theoremRegex 0 text)"

subsection \<open>extractProofs\<close>

text \<open>\<^verbatim>\<open>text.substring(pos).match(/\\begin\{proof\}(?:\[([^\]]+)\])?/)\<close>: the index of
  the match, the optional title and the length of \<^verbatim>\<open>startMatch[0]\<close>.\<close>

definition startMatch :: "string \<Rightarrow> (nat \<times> string option \<times> nat) option" where
  "startMatch s =
     (case search_lit begin_proof s of
        None \<Rightarrow> None
      | Some i \<Rightarrow>
          (case bracket_group (drop (i + length begin_proof) s) of
             Some (t, _) \<Rightarrow> Some (i, Some t, length begin_proof + (length t + 2))
           | None \<Rightarrow> Some (i, None, length begin_proof)))"

text \<open>
  The inner loop \<^verbatim>\<open>while (depth > 0 && searchPos < text.length)\<close>. It ends either at
  the \<^verbatim>\<open>\end{proof}\<close> that brings the depth to 0, giving its position \<^verbatim>\<open>endPos\<close>, or
  with a positive depth. The loop is defined without any assumption that it ends: \<open>None\<close>
  is the value of a run that never leaves it.
\<close>

datatype inner_result = Unterminated | Closed nat

partial_function (option) find_end :: "string \<Rightarrow> nat \<Rightarrow> nat \<Rightarrow> inner_result option" where
  "find_end text depth searchPos =
     (if depth > 0 \<and> searchPos < length text then
        (let nextBegin = search_lit begin_proof (js_substring_from text (int searchPos));
             nextEnd = search_lit end_proof (js_substring_from text (int searchPos))
         in case nextEnd of
              None \<Rightarrow> Some Unterminated
            | Some e \<Rightarrow>
                if (case nextBegin of None \<Rightarrow> False | Some b \<Rightarrow> b < e)
                then find_end text (depth + 1) (searchPos + the nextBegin + length begin_proof)
                else if depth - 1 = 0 then Some (Closed (searchPos + e))
                else find_end text (depth - 1) (searchPos + e + length end_proof))
      else Some Unterminated)"

text \<open>
  \<^verbatim>\<open>/\\label\{([^}]+)\}(?![\s\S]*\\end\{(?:theorem|...|problem)\})/\<close> on the text before
  the proof: the first label after which no end of a listed environment occurs.
\<close>

definition closing_names :: "string list" where
  "closing_names = [''theorem'', ''lemma'', ''proposition'', ''corollary'', ''definition'',
     ''example'', ''remark'', ''exercise'', ''problem'']"

definition label_not_enclosed :: "string \<Rightarrow> string option" where
  "label_not_enclosed s =
     do {
       r1 \<leftarrow> lit (BS # ''label{'') s;
       (l, r2) \<leftarrow> run1 (\<lambda>c. c \<noteq> CHR ''}'') r1;
       r3 \<leftarrow> lit ''}'' r2;
       if list_ex (\<lambda>n. js_includes r3 (BS # ''end{'' @ n @ ''}'')) closing_names then None else Some l
     }"

text \<open>
  \<^verbatim>\<open>while (usedIds.has(stableId)) { stableId = `${baseId}-${counter}`; counter++; }\<close>,
  again without any assumption that it ends.
\<close>

partial_function (option) disambiguate :: "string list \<Rightarrow> string \<Rightarrow> string \<Rightarrow> nat \<Rightarrow> string option" where
  "disambiguate usedIds baseId stableId counter =
     (if stableId \<in> set usedIds
      then disambiguate usedIds baseId (baseId @ ''-'' @ show_nat counter) (counter + 1)
      else Some stableId)"

definition choose_stable_id :: "string list \<Rightarrow> string option \<Rightarrow> string option \<Rightarrow> nat \<Rightarrow> string option" where
  "choose_stable_id usedIds labelMatch optionalTitle proofCounter =
     (case labelMatch of
        Some l \<Rightarrow> disambiguate usedIds (''proof-for-'' @ l) (''proof-for-'' @ l) 1
      | None \<Rightarrow>
          (case optionalTitle of
             Some t \<Rightarrow>
               (let sanitized = sanitize (toLowerCase t)
                in disambiguate usedIds (''proof-'' @ sanitized) (''proof-'' @ sanitized) 1)
           | None \<Rightarrow> Some (''proof-num-'' @ show_nat proofCounter)))"

text \<open>The variables of the outer loop. \<^verbatim>\<open>usedIds\<close> is a set; adding an id that is
  already there changes nothing.\<close>

record proof_scan =
  pos :: nat
  usedIds :: "string list"
  proofCounter :: nat
  proofs :: "element list"

datatype iteration = Break | Continue proof_scan

text \<open>
  One iteration of \<^verbatim>\<open>while (pos < text.length)\<close>. The content of the proof passes
  through convertListsInContent, processFiguresInContent and processNestedProofs; the
  clock of the proof numbered \<open>n\<close> is \<open>clock n\<close>.
\<close>

definition proof_iteration ::
  "(string \<Rightarrow> string) \<Rightarrow> (nat \<Rightarrow> nat \<Rightarrow> nat) \<Rightarrow> string \<Rightarrow> proof_scan \<Rightarrow> iteration option" where
  "proof_iteration figureHtml clock text st =
     (case startMatch (js_substring_from text (int (pos st))) of
        None \<Rightarrow> Some Break
      | Some (idx, optionalTitle, mlen) \<Rightarrow>
          (let startPos = pos st + idx
           in do {
             r \<leftarrow> find_end text 1 (startPos + mlen);
             (case r of
                Unterminated \<Rightarrow> Some (Continue (st\<lparr>pos := startPos + mlen\<rparr>))
              | Closed endPos \<Rightarrow>
                  (let whole = js_substring text (int startPos) (int (endPos + length end_proof));
                       content = js_substring text (int (startPos + mlen)) (int endPos);
                       c1 = convertListsInContent (trim content);
                       c2 = processFiguresInContent figureHtml c1;
                       cleanContent = processNestedProofs (clock (proofCounter st)) c2;
                       textBefore = js_substring text 0 (int startPos);
                       labelMatch = first_match label_not_enclosed textBefore
                   in do {
                     sid \<leftarrow> choose_stable_id (usedIds st) labelMatch optionalTitle (proofCounter st);
                     Some (Continue
                       \<lparr>pos = endPos + length end_proof,
                        usedIds = List.insert sid (usedIds st),
                        proofCounter = proofCounter st + 1,
                        proofs = proofs st @
                          [\<lparr>startIndex = startPos, fullMatch = whole,
                            detail = ProofD (case optionalTitle of Some t \<Rightarrow> t | None \<Rightarrow> ''Proof'')
                                       cleanContent (proofCounter st) sid\<rparr>]\<rparr>)
                   }))
           }))"

partial_function (option) extract_loop ::
  "(string \<Rightarrow> string) \<Rightarrow> (nat \<Rightarrow> nat \<Rightarrow> nat) \<Rightarrow> string \<Rightarrow> proof_scan \<Rightarrow> element list option" where
  "extract_loop figureHtml clock text st =
     (if pos st < length text then
        do {
          r \<leftarrow> proof_iteration figureHtml clock text st;
          (case r of
             Break \<Rightarrow> Some (proofs st)
           | Continue st' \<Rightarrow> extract_loop figureHtml clock text st')
        }
      else Some (proofs st))"

definition extractProofs ::
  "(string \<Rightarrow> string) \<Rightarrow> (nat \<Rightarrow> nat \<Rightarrow> nat) \<Rightarrow> string \<Rightarrow> element list option" where
  "extractProofs figureHtml clock text =
     extract_loop figureHtml clock text \<lparr>pos = 0, usedIds = [], proofCounter = 0, proofs = []\<rparr>"

declare find_end.simps [code]
declare disambiguate.simps [code]
declare extract_loop.simps [code]

subsection \<open>extractSections, extractFigures, extractEnumerates, extractItemizes\<close>

text \<open>\<^verbatim>\<open>/\\(section|subsection|subsubsection)\*?\{([^}]+)\}/g\<close>.\<close>

definition sectionRegex :: "string \<Rightarrow> (nat \<times> string \<times> string) option" where
  "sectionRegex s =
     do {
       r0 \<leftarrow> lit [BS] s;
       lv \<leftarrow> find (\<lambda>n. prefix n r0) [''section'', ''subsection'', ''subsubsection''];
       let r1 = drop (length lv) r0;
       let r2 = (case lit ''*'' r1 of Some r \<Rightarrow> r | None \<Rightarrow> r1);
       r3 \<leftarrow> lit ''{'' r2;
       (t, r4) \<leftarrow> run1 (\<lambda>c. c \<noteq> CHR ''}'') r3;
       r5 \<leftarrow> lit ''}'' r4;
       Some (consumed s r5, lv, t)
     }"

definition extractSections :: "string \<Rightarrow> element list" where
  "extractSections text =
     map (\<lambda>(idx, whole, lv, t). \<lparr>startIndex = idx, fullMatch = whole, detail = SectionD lv t\<rparr>)
       (exec_all sectionRegex 0 text)"

text \<open>\<^verbatim>\<open>/\\begin\{figure\}(?:\s*\[[^\]]*\])?([\s\S]*?)\\end\{figure\}/g\<close>; the optional
  placement is skipped when the rest cannot match after it.\<close>

definition figure_placement :: "string \<Rightarrow> string option" where
  "figure_placement s =
     do {
       let (_, r1) = run0 is_space s;
       r2 \<leftarrow> lit ''['' r1;
       let (_, r3) = run0 (\<lambda>c. c \<noteq> CHR '']'') r2;
       lit '']'' r3
     }"

definition figureRegex :: "string \<Rightarrow> (nat \<times> string) option" where
  "figureRegex s =
     do {
       r1 \<leftarrow> lit (BS # ''begin{figure}'') s;
       (case (do { r2 \<leftarrow> figure_placement r1; (body, r3) \<leftarrow> lazy_until (BS # ''end{figure}'') r2;
                   Some (consumed s r3, body) }) of
          Some res \<Rightarrow> Some res
        | None \<Rightarrow> do { (body, r3) \<leftarrow> lazy_until (BS # ''end{figure}'') r1; Some (consumed s r3, body) })
     }"

definition extractFigures :: "string \<Rightarrow> element list" where
  "extractFigures text =
     map (\<lambda>(idx, whole, content). \<lparr>startIndex = idx, fullMatch = whole, detail = FigureD (trim content)\<rparr>)
       (exec_all figureRegex 0 text)"

definition extractEnumerates :: "string \<Rightarrow> element list" where
  "extractEnumerates text =
     map (\<lambda>(idx, whole, optionalType, content).
            \<lparr>startIndex = idx, fullMatch = whole, detail = EnumerateD optionalType (trim content)\<rparr>)
       (exec_all enumerate_env 0 text)"

definition extractItemizes :: "string \<Rightarrow> element list" where
  "extractItemizes text =
     map (\<lambda>(idx, whole, content). \<lparr>startIndex = idx, fullMatch = whole, detail = ItemizeD (trim content)\<rparr>)
       (exec_all itemize_env 0 text)"

section \<open>Generators of the replacement HTML\<close>

definition capitalize :: "string \<Rightarrow> string" where
  "capitalize s = (case s of [] \<Rightarrow> [] | c # cs \<Rightarrow> upper_char c # cs)"

text \<open>The id \<^verbatim>\<open>collapsibleId\<close> of a remark or example box: from the label, else from
  the title, else from the ordinal of the box among the boxes of its environment.\<close>

definition collapsible_id :: "string \<Rightarrow> string option \<Rightarrow> string option \<Rightarrow> nat \<Rightarrow> string" where
  "collapsible_id envName label ttl typeCount =
     (case label of
        Some l \<Rightarrow> ''collapsible-'' @ l
      | None \<Rightarrow>
          (case ttl of
             Some t \<Rightarrow> ''collapsible-'' @ envName @ ''-'' @ sanitize (toLowerCase t)
           | None \<Rightarrow> ''collapsible-'' @ envName @ ''-'' @ show_nat typeCount))"

definition generateTheoremHTML :: "detail \<Rightarrow> string" where
  "generateTheoremHTML d =
     (case d of
        TheoremD envName num label ttl content typeCount \<Rightarrow>
          (let envLabel = capitalize envName;
               anchor = (case label of Some l \<Rightarrow> l | None \<Rightarrow> envName @ ''-'' @ num);
               header = ''<strong>'' @ envLabel @ '' '' @ num @ ''</strong>'' @
                        (case ttl of Some t \<Rightarrow> '' ('' @ t @ '')'' | None \<Rightarrow> [])
           in if envName = ''remark'' \<or> envName = ''example'' then
                (let collapsibleId = collapsible_id envName label ttl typeCount
                 in [NL] @ ''<div class=\"theorem-box '' @ envName @
                    ''-box collapsible-box collapsed\" id=\"'' @ anchor @
                    ''\" data-collapsible-id=\"'' @ collapsibleId @ ''\">'' @ [NL] @
                    ''  <div class=\"theorem-header clickable\" onclick=\"toggleCollapsible('' @ [SQ] @
                    collapsibleId @ [SQ] @ '')\">'' @ [NL] @
                    ''    <span class=\"collapsible-icon\">'' @ glyph_down @ ''</span>'' @ [NL] @
                    ''    '' @ header @ [NL] @
                    ''  </div>'' @ [NL] @
                    ''  <div class=\"theorem-content collapsible-content\" id=\"'' @ collapsibleId @
                    ''\">'' @ content @ ''</div>'' @ [NL] @
                    ''</div>'' @ [NL])
              else
                [NL] @ ''<div class=\"theorem-box '' @ envName @ ''-box\" id=\"'' @ anchor @ ''\">'' @ [NL] @
                ''  <div class=\"theorem-header\">'' @ header @ ''</div>'' @ [NL] @
                ''  <div class=\"theorem-content\">'' @ content @ ''</div>'' @ [NL] @
                ''</div>'' @ [NL])
      | _ \<Rightarrow> [])"

definition generateProofHTML :: "detail \<Rightarrow> string" where
  "generateProofHTML d =
     (case d of
        ProofD ttl content proofNum proofId \<Rightarrow>
          [NL] @ ''<div class=\"proof-box collapsed\" data-proof-id=\"'' @ proofId @ ''\">'' @ [NL] @
          ''  <div class=\"proof-header\">'' @ [NL] @
          ''    <button class=\"proof-toggle\" onclick=\"toggleProof('' @ [SQ] @ proofId @ [SQ] @
          '')\" aria-expanded=\"false\">'' @ [NL] @
          ''      <span class=\"proof-toggle-icon\">'' @ glyph_down @ ''</span>'' @ [NL] @
          ''      <strong>'' @ ttl @ ''</strong>'' @ [NL] @
          ''    </button>'' @ [NL] @
          ''  </div>'' @ [NL] @
          ''  <div class=\"proof-content\" id=\"'' @ proofId @ ''\">'' @ [NL] @
          ''    '' @ content @ [NL] @
          ''    <span class=\"proof-end\">'' @ glyph_box @ ''</span>'' @ [NL] @
          ''  </div>'' @ [NL] @
          ''</div>'' @ [NL]
      | _ \<Rightarrow> [])"

definition generateSectionHTML :: "detail \<Rightarrow> string" where
  "generateSectionHTML d =
     (case d of
        SectionD lv ttl \<Rightarrow>
          (let tag = (case map_of [(''section'', ''h2''), (''subsection'', ''h3''), (''subsubsection'', ''h4'')] lv of
                        Some t \<Rightarrow> t | None \<Rightarrow> ''h2'')
           in ''<'' @ tag @ ''>'' @ ttl @ ''</'' @ tag @ ''>'')
      | _ \<Rightarrow> [])"

definition generateEnumerateHTML :: "detail \<Rightarrow> string" where
  "generateEnumerateHTML d =
     (case d of
        EnumerateD listType content \<Rightarrow>
          ''<ol'' @ list_type_attr listType @ ''>'' @ list_items content @ ''</ol>''
      | _ \<Rightarrow> [])"

definition generateItemizeHTML :: "detail \<Rightarrow> string" where
  "generateItemizeHTML d =
     (case d of
        ItemizeD content \<Rightarrow> ''<ul>'' @ list_items content @ ''</ul>''
      | _ \<Rightarrow> [])"

text \<open>The dispatch on \<^verbatim>\<open>element.type\<close> in the splice loop. generateFigureHTML, like the
  figure callback above, is a parameter.\<close>

definition generate :: "(string \<Rightarrow> string) \<Rightarrow> element \<Rightarrow> string" where
  "generate generateFigureHTML el =
     (case detail el of
        TheoremD _ _ _ _ _ _ \<Rightarrow> generateTheoremHTML (detail el)
      | ProofD _ _ _ _ \<Rightarrow> generateProofHTML (detail el)
      | SectionD _ _ \<Rightarrow> generateSectionHTML (detail el)
      | FigureD content \<Rightarrow> generateFigureHTML content
      | EnumerateD _ _ \<Rightarrow> generateEnumerateHTML (detail el)
      | ItemizeD _ \<Rightarrow> generateItemizeHTML (detail el))"

section \<open>convertLaTeXToHTML: extraction, masking, merge\<close>

text \<open>\<^verbatim>\<open>/\\documentclass[\s\S]*?\\begin\{document\}/\<close> and
  \<^verbatim>\<open>/\\end\{document\}[\s\S]*$/\<close>, both replaced by the empty string.\<close>

definition strip_document :: "string \<Rightarrow> string" where
  "strip_document raw =
     (let t1 = replace_first
                 (\<lambda>s. do { r1 \<leftarrow> lit (BS # ''documentclass'') s;
                            (_, r2) \<leftarrow> lazy_until (BS # ''begin{document}'') r1;
                            Some (consumed s r2, []) })
                 raw
      in case search_lit (BS # ''end{document}'') t1 of
           Some k \<Rightarrow> take k t1
         | None \<Rightarrow> t1)"

text \<open>One step of the masking loop: the span of a box is overwritten with spaces.\<close>

definition mask_box :: "element \<Rightarrow> string \<Rightarrow> string" where
  "mask_box box maskedText =
     js_substring maskedText 0 (int (startIndex box)) @
     replicate (length (fullMatch box)) (CHR '' '') @
     js_substring_from maskedText (int (startIndex box + length (fullMatch box)))"

text \<open>\<^verbatim>\<open>for (let i = allBoxes.length - 1; i >= 0; i--)\<close>: the last box first.\<close>

definition mask_boxes :: "element list \<Rightarrow> string \<Rightarrow> string" where
  "mask_boxes allBoxes texContent = foldr mask_box allBoxes texContent"

text \<open>\<^verbatim>\<open>[...].sort((a, b) => a.startIndex - b.startIndex)\<close>, a stable sort.\<close>

definition by_position :: "element list \<Rightarrow> element list" where
  "by_position els = sort_key startIndex els"

text \<open>
  The extraction part of convertLaTeXToHTML, in the order of the source: figures,
  theorems, proofs and sections from \<^verbatim>\<open>texContent\<close>, then the masked text, then
  enumerates and itemizes from the masked text, then the merge.
\<close>

record extraction =
  maskedText :: string
  allElements :: "element list"

definition collect_elements ::
  "labels \<Rightarrow> (string \<Rightarrow> string) \<Rightarrow> (nat \<Rightarrow> nat \<Rightarrow> nat) \<Rightarrow> string \<Rightarrow> extraction option" where
  "collect_elements auxLabels figureHtml clock texContent =
     (let figures = extractFigures texContent;
          theorems = extractTheorems auxLabels figureHtml texContent
      in do {
        prfs \<leftarrow> extractProofs figureHtml clock texContent;
        let sections = extractSections texContent;
        let allBoxes = by_position (theorems @ prfs);
        let masked = mask_boxes allBoxes texContent;
        let enumerates = extractEnumerates masked;
        let itemizes = extractItemizes masked;
        Some \<lparr>maskedText = masked,
              allElements = by_position (theorems @ prfs @ sections @ figures @ enumerates @ itemizes)\<rparr>
      })"

section \<open>Reference linking\<close>

text \<open>\<^verbatim>\<open>/\\(?:ref|eqref|cref|Cref)\{([^}]+)\}/g\<close>: length of the match and the label.\<close>

definition refNames :: "string list" where
  "refNames = [''ref'', ''eqref'', ''cref'', ''Cref'']"

definition refRegex :: "string \<Rightarrow> (nat \<times> string) option" where
  "refRegex s =
     do {
       r0 \<leftarrow> lit [BS] s;
       name \<leftarrow> find (\<lambda>n. prefix (n @ ''{'') r0) refNames;
       let r1 = drop (length name + 1) r0;
       (label, r2) \<leftarrow> run1 (\<lambda>c. c \<noteq> CHR ''}'') r1;
       r3 \<leftarrow> lit ''}'' r2;
       Some (consumed s r3, label)
     }"

text \<open>A replacement of every reference command by what a callback makes of its label.\<close>

definition replace_references :: "(string \<Rightarrow> string) \<Rightarrow> string \<Rightarrow> string" where
  "replace_references f text =
     replace_all (\<lambda>s. case refRegex s of None \<Rightarrow> None | Some (n, label) \<Rightarrow> Some (n, f label)) text"

text \<open>The callback inside a math block. For an inherited name \<^verbatim>\<open>labelData.number\<close> is
  \<^verbatim>\<open>undefined\<close>, which \<^verbatim>\<open>replace\<close> writes as the text \<^verbatim>\<open>undefined\<close>.\<close>

definition math_reference :: "labels \<Rightarrow> string \<Rightarrow> string" where
  "math_reference auxLabels label =
     (case js_lookup auxLabels label of
        Missing \<Rightarrow> ''['' @ label @ ''?]''
      | Own labelData \<Rightarrow> number labelData
      | Inherited \<Rightarrow> ''undefined'')"

text \<open>The callback of processReferences. For an inherited name the number is
  \<^verbatim>\<open>undefined\<close>, written by the template as the text \<^verbatim>\<open>undefined\<close>, and
  \<^verbatim>\<open>labelData.anchor || label\<close> is the label.\<close>

definition prose_reference :: "labels \<Rightarrow> string \<Rightarrow> string" where
  "prose_reference auxLabels label =
     (case js_lookup auxLabels label of
        Missing \<Rightarrow>
          ''<span class=\"ref-unknown\" title=\"Reference not found: '' @ label @ ''\">['' @ label @
          ''?]</span>''
      | Own labelData \<Rightarrow>
          (let num = number labelData;
               anc = (if anchor labelData = [] then label else anchor labelData)
           in ''<a href=\"#'' @ anc @ ''\" class=\"ref-link\">'' @ num @ ''</a>'')
      | Inherited \<Rightarrow>
          ''<a href=\"#'' @ label @ ''\" class=\"ref-link\">undefined</a>'')"

definition processReferences :: "labels \<Rightarrow> string \<Rightarrow> string" where
  "processReferences auxLabels text = replace_references (prose_reference auxLabels) text"

text \<open>
  \<^verbatim>\<open>/(\\begin\{(?:align|equation|gather)[*]?\}[\s\S]*?\\end\{(?:align|equation|gather)[*]?\})/g\<close>:
  a delimiter with keyword \<^verbatim>\<open>begin\<close> or \<^verbatim>\<open>end\<close>, and the block from a begin to the
  first end after it.
\<close>

definition mathNames :: "string list" where
  "mathNames = [''align'', ''equation'', ''gather'']"

definition math_delimiter :: "string \<Rightarrow> string \<Rightarrow> string option" where
  "math_delimiter kw s =
     do {
       r0 \<leftarrow> lit (BS # kw @ ''{'') s;
       name \<leftarrow> find (\<lambda>n. prefix n r0) mathNames;
       let r1 = drop (length name) r0;
       let r2 = (case lit ''*'' r1 of Some r \<Rightarrow> r | None \<Rightarrow> r1);
       lit ''}'' r2
     }"

definition mathBlock :: "string \<Rightarrow> nat option" where
  "mathBlock s =
     do {
       r1 \<leftarrow> math_delimiter ''begin'' s;
       (_, r2) \<leftarrow> lazy_until_match (math_delimiter ''end'') r1;
       Some (consumed s r2)
     }"

definition math_pass :: "labels \<Rightarrow> string \<Rightarrow> string" where
  "math_pass auxLabels html =
     replace_all
       (\<lambda>s. case mathBlock s of
               None \<Rightarrow> None
             | Some n \<Rightarrow> Some (n, replace_references (math_reference auxLabels) (take n s)))
       html"

text \<open>The two passes in the order of convertLaTeXToHTML.\<close>

definition link_references :: "labels \<Rightarrow> string \<Rightarrow> string" where
  "link_references auxLabels html = processReferences auxLabels (math_pass auxLabels html)"

section \<open>The splice loop of convertLaTeXToHTML\<close>

text \<open>\<^verbatim>\<open>console.error\<close> output of the loop: one entry per skipped element, with the
  position the mismatch was found at.\<close>

datatype diagnostic = Mismatch int

record splice_state =
  html :: string
  offset :: int
  errors :: "diagnostic list"

text \<open>One iteration of \<^verbatim>\<open>for (const element of allElements)\<close>. The generator of the
  replacement is the parameter \<open>gen\<close>; in the source it is \<^const>\<open>generate\<close>.\<close>

definition splice_index :: "splice_state \<Rightarrow> element \<Rightarrow> int" where
  "splice_index st el = int (startIndex el) + offset st"

definition textAtPosition :: "splice_state \<Rightarrow> element \<Rightarrow> string" where
  "textAtPosition st el =
     js_substring (html st) (splice_index st el)
       (splice_index st el + int (length (fullMatch el)))"

definition splice_step :: "(element \<Rightarrow> string) \<Rightarrow> splice_state \<Rightarrow> element \<Rightarrow> splice_state" where
  "splice_step gen st el =
     (let index = splice_index st el
      in if textAtPosition st el \<noteq> fullMatch el
         then st\<lparr>errors := errors st @ [Mismatch index]\<rparr>
         else
           let before = js_substring (html st) 0 index;
               after = js_substring_from (html st) (index + int (length (fullMatch el)));
               replacement = gen el
           in st\<lparr>html := before @ replacement @ after,
                 offset := offset st + (int (length replacement) - int (length (fullMatch el)))\<rparr>)"

fun splice_loop :: "(element \<Rightarrow> string) \<Rightarrow> splice_state \<Rightarrow> element list \<Rightarrow> splice_state" where
  "splice_loop gen st [] = st"
| "splice_loop gen st (el # els) = splice_loop gen (splice_step gen st el) els"

definition run_splice :: "(element \<Rightarrow> string) \<Rightarrow> string \<Rightarrow> element list \<Rightarrow> splice_state" where
  "run_splice gen texContent els =
     splice_loop gen \<lparr>html = texContent, offset = 0, errors = []\<rparr> els"

section \<open>Notions used to state the properties\<close>

subsection \<open>What the splicer is meant to compute\<close>

text \<open>
  The reference result, written from the contract of the splicer: the original text from
  position \<open>c\<close> on, with every element's source span replaced by its generated fragment;
  the text between and around the fragments is copied from the original.
\<close>

fun interleave :: "(element \<Rightarrow> string) \<Rightarrow> string \<Rightarrow> nat \<Rightarrow> element list \<Rightarrow> string" where
  "interleave gen text c [] = drop c text"
| "interleave gen text c (el # els) =
     take (startIndex el - c) (drop c text) @ gen el @
     interleave gen text (startIndex el + length (fullMatch el)) els"

text \<open>End of the half-open source span of an element.\<close>

definition span_end :: "element \<Rightarrow> nat" where
  "span_end el = startIndex el + length (fullMatch el)"

text \<open>The recorded raw text is what the original text holds at the recorded offset.\<close>

definition raw_matches :: "string \<Rightarrow> element \<Rightarrow> bool" where
  "raw_matches text el =
     (span_end el \<le> length text \<and>
      js_substring text (int (startIndex el)) (int (span_end el)) = fullMatch el)"

text \<open>In list order, every span ends before any later span starts.\<close>

definition non_overlapping :: "element list \<Rightarrow> bool" where
  "non_overlapping els =
     (\<forall>i j. i < j \<and> j < length els \<longrightarrow> span_end (els ! i) \<le> startIndex (els ! j))"

text \<open>The same conditions, threaded along the list from a lower bound \<open>c\<close>.\<close>

fun spans_from :: "string \<Rightarrow> nat \<Rightarrow> element list \<Rightarrow> bool" where
  "spans_from text c [] = (c \<le> length text)"
| "spans_from text c (el # els) =
     (c \<le> startIndex el \<and> span_end el \<le> length text \<and>
      take (length (fullMatch el)) (drop (startIndex el) text) = fullMatch el \<and>
      spans_from text (span_end el) els)"

text \<open>Two loop states with the same working text and the same cumulative offset.\<close>

definition same_text :: "splice_state \<Rightarrow> splice_state \<Rightarrow> bool" where
  "same_text a b = (html a = html b \<and> offset a = offset b)"

subsection \<open>What identifies a top-level proof\<close>

text \<open>
  An element without its rendered content, the fields of a proof element other than its
  rendered content, and the id under which the client script keeps the open or closed state
  of an element: the stable id of a proof, the \<^verbatim>\<open>collapsibleId\<close> of a remark or example
  box, none for the other elements.
\<close>

fun skeleton_detail :: "detail \<Rightarrow> detail" where
  "skeleton_detail (TheoremD envName num label ttl content typeCount) =
     TheoremD envName num label ttl [] typeCount"
| "skeleton_detail (ProofD ttl content proofNum proofId) = ProofD ttl [] proofNum proofId"
| "skeleton_detail d = d"

definition skeleton :: "element \<Rightarrow> element" where
  "skeleton el = el\<lparr>detail := skeleton_detail (detail el)\<rparr>"

definition proof_identity :: "element \<Rightarrow> nat \<times> string \<times> string \<times> nat \<times> string" where
  "proof_identity el =
     (startIndex el, fullMatch el, ptitle (detail el), proofNumber (detail el), stable_id (detail el))"

definition persisted_id :: "element \<Rightarrow> nat \<times> string option" where
  "persisted_id el =
     (startIndex el,
      case detail el of
        TheoremD envName num label ttl content typeCount \<Rightarrow>
          if envName = ''remark'' \<or> envName = ''example''
          then Some (collapsible_id envName label ttl typeCount) else None
      | ProofD ttl content proofNum proofId \<Rightarrow> Some proofId
      | _ \<Rightarrow> None)"

text \<open>Scan states and iteration outcomes that agree on everything but rendered contents.\<close>

definition proof_view :: "element \<Rightarrow> (nat \<times> string \<times> string \<times> nat \<times> string) \<times> element" where
  "proof_view el = (proof_identity el, skeleton el)"

definition same_scan :: "proof_scan \<Rightarrow> proof_scan \<Rightarrow> bool" where
  "same_scan a b =
     (pos a = pos b \<and> usedIds a = usedIds b \<and> proofCounter a = proofCounter b \<and>
      map proof_view (proofs a) = map proof_view (proofs b))"

fun same_outcome :: "iteration option \<Rightarrow> iteration option \<Rightarrow> bool" where
  "same_outcome (Some Break) (Some Break) = True"
| "same_outcome (Some (Continue a)) (Some (Continue b)) = same_scan a b"
| "same_outcome None None = True"
| "same_outcome _ _ = False"

subsection \<open>The merge of label records\<close>







subsection \<open>Documents with reference commands\<close>

text \<open>
  A document as the reference linker sees it: paragraphs of plain text and reference
  commands, and display-math blocks whose body is plain text and reference commands between
  an opening and a closing delimiter. Its source text, and the text the linker is meant to
  produce: every command in a paragraph replaced by what processReferences makes of its
  label, every command in a math block by what the math callback makes of it, all else
  unchanged.
\<close>

datatype inline = Text string | Ref string string

datatype block = Para "inline list" | Math string "inline list" string

definition command :: "string \<Rightarrow> string \<Rightarrow> string" where
  "command n l = BS # n @ ''{'' @ l @ ''}''"

fun inline_source :: "inline \<Rightarrow> string" where
  "inline_source (Text s) = s"
| "inline_source (Ref n l) = command n l"

definition inlines_source :: "inline list \<Rightarrow> string" where
  "inlines_source items = concat (map inline_source items)"

fun block_source :: "block \<Rightarrow> string" where
  "block_source (Para items) = inlines_source items"
| "block_source (Math op body cl) = op @ inlines_source body @ cl"

definition document_source :: "block list \<Rightarrow> string" where
  "document_source doc = concat (map block_source doc)"

fun inline_output :: "(string \<Rightarrow> string) \<Rightarrow> inline \<Rightarrow> string" where
  "inline_output f (Text s) = s"
| "inline_output f (Ref n l) = f l"

definition inlines_output :: "(string \<Rightarrow> string) \<Rightarrow> inline list \<Rightarrow> string" where
  "inlines_output f items = concat (map (inline_output f) items)"

fun block_linked :: "labels \<Rightarrow> block \<Rightarrow> string" where
  "block_linked auxLabels (Para items) = inlines_output (prose_reference auxLabels) items"
| "block_linked auxLabels (Math op body cl) =
     op @ inlines_output (math_reference auxLabels) body @ cl"

definition document_linked :: "labels \<Rightarrow> block list \<Rightarrow> string" where
  "document_linked auxLabels doc = concat (map (block_linked auxLabels) doc)"

text \<open>
  Plain text is quiet: it holds no opener of a reference command and no math delimiter. A
  well-formed list never has two plain texts in a row, so that plain text is always followed
  by a command, a delimiter or the end. A label has no closing brace and no backslash. The
  predicate \<open>ok\<close> is a condition on the labels of the commands; in a math block it says
  that what replaces the command is not empty, has no backslash and does not start with a
  character that could continue the name of a reference command.
\<close>

definition ref_openers :: "string list" where
  "ref_openers = map (\<lambda>n. BS # n @ ''{'') refNames"

definition math_delimiters :: "string \<Rightarrow> string list" where
  "math_delimiters kw =
     concat (map (\<lambda>n. [BS # kw @ ''{'' @ n @ ''}'', BS # kw @ ''{'' @ n @ ''*}'']) mathNames)"

definition quiet :: "string \<Rightarrow> bool" where
  "quiet s =
     list_all (\<lambda>t. \<not> js_includes s t)
       (ref_openers @ math_delimiters ''begin'' @ math_delimiters ''end'')"

definition valid_ref :: "string \<Rightarrow> string \<Rightarrow> bool" where
  "valid_ref n l = (n \<in> set refNames \<and> l \<noteq> [] \<and> CHR ''}'' \<notin> set l \<and> BS \<notin> set l)"

definition plain_output :: "string \<Rightarrow> bool" where
  "plain_output q = (q \<noteq> [] \<and> BS \<notin> set q \<and> hd q \<notin> set ''refqcC{'')"

fun wf_inlines :: "(string \<Rightarrow> bool) \<Rightarrow> inline list \<Rightarrow> bool" where
  "wf_inlines ok [] = True"
| "wf_inlines ok (Text s # Text t # r) = False"
| "wf_inlines ok (Text s # r) = (quiet s \<and> wf_inlines ok r)"
| "wf_inlines ok (Ref n l # r) = (valid_ref n l \<and> ok l \<and> wf_inlines ok r)"

fun wf_document :: "labels \<Rightarrow> block list \<Rightarrow> bool" where
  "wf_document auxLabels [] = True"
| "wf_document auxLabels (Para p # Para q # r) = False"
| "wf_document auxLabels (Para p # r) = (wf_inlines (\<lambda>l. True) p \<and> wf_document auxLabels r)"
| "wf_document auxLabels (Math op body cl # r) =
     (op \<in> set (math_delimiters ''begin'') \<and> cl \<in> set (math_delimiters ''end'') \<and>
      wf_inlines (\<lambda>l. plain_output (math_reference auxLabels l)) body \<and>
      wf_document auxLabels r)"

definition bs_or_end :: "string \<Rightarrow> bool" where
  "bs_or_end u = (u = [] \<or> hd u = BS)"

definition stops :: "string \<Rightarrow> bool" where
  "stops u = (u = [] \<or> hd u \<notin> set ''refqcC{'')"

text \<open>A small label table and document, and a table whose number for \<^verbatim>\<open>a\<close> is the
  beginning of a reference command.\<close>

definition demo_labels :: labels where
  "demo_labels = map_of [(''e:1'', \<lparr>number = ''1.2'', page = ''3'', title = [], anchor = ''equation.1.2''\<rparr>)]"

definition demo_doc :: "block list" where
  "demo_doc =
     [Para [Text ''see '', Ref ''ref'' ''e:1'', Text '' and '', Ref ''cref'' ''zz''],
      Math (BS # ''begin{align}'') [Text (''x = '' @ BS # ''alpha by ''), Ref ''eqref'' ''e:1'', Ref ''ref'' ''zz''] (BS # ''end{align}''),
      Para [Text '' done'']]"

text \<open>A matcher that fails at every position of \<open>s\<close> when \<open>t\<close> follows, and the
  document after the math pass alone.\<close>

definition silent :: "(string \<Rightarrow> 'a option) \<Rightarrow> string \<Rightarrow> string \<Rightarrow> bool" where
  "silent m s t = (\<forall>i < length s. m (drop i s @ t) = None)"

fun block_after_math :: "labels \<Rightarrow> block \<Rightarrow> string" where
  "block_after_math auxLabels (Para items) = inlines_source items"
| "block_after_math auxLabels (Math op body cl) =
     op @ inlines_output (math_reference auxLabels) body @ cl"

definition document_after_math :: "labels \<Rightarrow> block list \<Rightarrow> string" where
  "document_after_math auxLabels doc = concat (map (block_after_math auxLabels) doc)"

section \<open>Facts about the string primitives\<close>

lemma search_lit_bound: "search_lit p s = Some k \<Longrightarrow> k + length p \<le> length s"
proof (induction s arbitrary: k)
  case Nil
  then show ?case by (simp split: if_splits)
next
  case (Cons c cs)
  show ?case
  proof (cases "prefix p (c # cs)")
    case True
    with Cons.prems have "k = 0" by simp
    with prefix_length_le [OF True] show ?thesis by simp
  next
    case False
    with Cons.prems obtain j where "search_lit p cs = Some j" "k = Suc j" by auto
    with Cons.IH show ?thesis by simp
  qed
qed

lemma substring_from_nat [simp]: "js_substring_from s (int a) = drop a s"
  by (cases "a \<le> length s") (simp_all add: js_substring_from_def clamp_index_def min_def)

lemma length_begin_proof: "length begin_proof = 13"
  by (simp add: begin_proof_def)

lemma length_end_proof: "length end_proof = 11"
  by (simp add: end_proof_def)

section \<open>Properties of the splice loop\<close>

lemma js_substring_nat:
  "a \<le> b \<Longrightarrow> b \<le> length s \<Longrightarrow> js_substring s (int a) (int b) = take (b - a) (drop a s)"
  by (simp add: js_substring_def clamp_index_def Let_def min_def max_def)

lemma js_substring_from_nat:
  "a \<le> length s \<Longrightarrow> js_substring_from s (int a) = drop a s"
  by (simp add: js_substring_from_def clamp_index_def)

lemma raw_matches_take:
  "raw_matches text el \<Longrightarrow>
     take (length (fullMatch el)) (drop (startIndex el) text) = fullMatch el"
  using js_substring_nat [of "startIndex el" "startIndex el + length (fullMatch el)" "text"]
  by (simp add: raw_matches_def span_end_def)

lemma spans_from_intro:
  "non_overlapping els \<Longrightarrow> \<forall>el \<in> set els. raw_matches text el \<Longrightarrow>
   (\<forall>el \<in> set els. c \<le> startIndex el) \<Longrightarrow> c \<le> length text \<Longrightarrow> spans_from text c els"
proof (induction els arbitrary: c)
  case Nil
  then show ?case by simp
next
  case (Cons el els)
  have no: "non_overlapping els"
    using Cons.prems(1) unfolding non_overlapping_def
    by (metis Suc_less_eq length_Cons nth_Cons_Suc)
  have later: "\<forall>e \<in> set els. span_end el \<le> startIndex e"
  proof
    fix e assume "e \<in> set els"
    then obtain k where k: "k < length els" "els ! k = e" by (auto simp: in_set_conv_nth)
    from Cons.prems(1) have "span_end ((el # els) ! 0) \<le> startIndex ((el # els) ! Suc k)"
      unfolding non_overlapping_def using k(1) by (metis Suc_less_eq length_Cons zero_less_Suc)
    with k show "span_end el \<le> startIndex e" by simp
  qed
  have rm: "raw_matches text el" using Cons.prems(2) by simp
  then have bound: "span_end el \<le> length text" by (simp add: raw_matches_def)
  have "spans_from text (span_end el) els"
    using Cons.IH [OF no _ later bound] Cons.prems(2) by simp
  with rm bound Cons.prems(3) show ?case
    by (simp add: raw_matches_take)
qed

lemma splice_loop_invariant:
  "spans_from text c els \<Longrightarrow>
   splice_loop gen \<lparr>html = P @ drop c text, offset = int (length P) - int c, errors = E\<rparr> els
     = \<lparr>html = P @ interleave gen text c els,
        offset = int (length (P @ interleave gen text c els)) - int (length text), errors = E\<rparr>"
proof (induction els arbitrary: P c)
  case Nil
  then show ?case by simp
next
  case (Cons el els)
  let ?s = "startIndex el" and ?n = "length (fullMatch el)"
  let ?h = "P @ drop c text"
  from Cons.prems have c: "c \<le> ?s" and e: "?s + ?n \<le> length text"
    and m: "take ?n (drop ?s text) = fullMatch el"
    and rest: "spans_from text (?s + ?n) els"
    by (simp_all add: span_end_def)
  let ?i = "length P + (?s - c)"
  have idx: "int ?s + (int (length P) - int c) = int ?i" using c by simp
  have idx2: "int ?i + int ?n = int (?i + ?n)" by simp
  have le1: "?i \<le> ?i + ?n" by simp
  have le2: "?i + ?n \<le> length ?h" using c e by simp
  have dd: "drop (?s - c) (drop c text) = drop ?s text" using c by simp
  have "js_substring ?h (int ?i) (int (?i + ?n)) = take (?i + ?n - ?i) (drop ?i ?h)"
    by (rule js_substring_nat [OF le1 le2])
  also have "\<dots> = take ?n (drop (?s - c) (drop c text))" by simp
  also have "\<dots> = fullMatch el" using dd m by simp
  finally have at: "js_substring ?h (int ?i) (int (?i + ?n)) = fullMatch el" .
  have before: "js_substring ?h 0 (int ?i) = P @ take (?s - c) (drop c text)"
    using js_substring_nat [of 0 ?i ?h] le2 by simp
  have "js_substring_from ?h (int (?i + ?n)) = drop (?i + ?n) ?h"
    by (rule js_substring_from_nat [OF le2])
  also have "\<dots> = drop (?s - c + ?n) (drop c text)" by simp
  also have "\<dots> = drop (?s - c + ?n + c) text" by (simp only: drop_drop)
  also have "?s - c + ?n + c = ?s + ?n" using c by arith
  finally have after: "js_substring_from ?h (int (?i + ?n)) = drop (?s + ?n) text" .
  let ?P' = "P @ take (?s - c) (drop c text) @ gen el"
  have lenP': "int (length ?P') - int (?s + ?n)
      = int (length P) - int c + (int (length (gen el)) - int ?n)"
    using c e by simp
  have step: "splice_step gen \<lparr>html = ?h, offset = int (length P) - int c, errors = E\<rparr> el
      = \<lparr>html = ?P' @ drop (?s + ?n) text, offset = int (length ?P') - int (?s + ?n), errors = E\<rparr>"
    unfolding splice_step_def textAtPosition_def splice_index_def Let_def
    by (simp only: splice_state.simps idx idx2 at before after lenP' simp_thms if_False append_assoc)
  show ?case
    using Cons.IH [OF rest, of ?P'] step by (simp add: span_end_def)
qed

lemma splice_step_same_text:
  "same_text a b \<Longrightarrow> same_text (splice_step gen a el) (splice_step gen b el)"
  by (simp add: same_text_def splice_step_def textAtPosition_def splice_index_def Let_def)

lemma splice_loop_same_text:
  "same_text a b \<Longrightarrow> same_text (splice_loop gen a els) (splice_loop gen b els)"
  by (induction els arbitrary: a b) (simp_all add: splice_step_same_text)

lemma splice_loop_append:
  "splice_loop gen st (xs @ ys) = splice_loop gen (splice_loop gen st xs) ys"
  by (induction xs arbitrary: st) simp_all

text \<open>
  C2. When the elements are ordered by position, their source spans do not overlap and
  each recorded raw text is the original text at its offset, the splice loop skips nothing
  and its output is the original text with each span replaced, in order, by that element's
  fragment: around and between the fragments stands exactly the text of the original
  outside the spans.
\<close>

theorem splice_offset_integrity:
  assumes "sorted (map startIndex els)"
    and "non_overlapping els"
    and "\<forall>el \<in> set els. raw_matches text el"
  shows "html (run_splice gen text els) = interleave gen text 0 els
       \<and> errors (run_splice gen text els) = []"
proof -
  have "spans_from text 0 els"
    using assms(2,3) by (intro spans_from_intro) simp_all
  from splice_loop_invariant [OF this, of gen "[]" "[]"]
  show ?thesis by (simp add: run_splice_def)
qed

theorem splice_offset_integrity_witness:
  "html (run_splice (\<lambda>el. ''<h2>'' @ stitle (detail el) @ ''</h2>'')
       (''ab'' @ BS # ''section{x}cd'' @ BS # ''section{y}ef'')
       [\<lparr>startIndex = 2, fullMatch = (BS # ''section{x}''), detail = SectionD ''section'' ''x''\<rparr>,
        \<lparr>startIndex = 15, fullMatch = (BS # ''section{y}''), detail = SectionD ''section'' ''y''\<rparr>])
     = ''ab<h2>x</h2>cd<h2>y</h2>ef''"
proof -
  let ?e1 = "\<lparr>startIndex = 2, fullMatch = (BS # ''section{x}''), detail = SectionD ''section'' ''x''\<rparr>"
  let ?e2 = "\<lparr>startIndex = 15, fullMatch = (BS # ''section{y}''), detail = SectionD ''section'' ''y''\<rparr>"
  let ?t = "(''ab'' @ BS # ''section{x}cd'' @ BS # ''section{y}ef'')"
  have s: "sorted (map startIndex [?e1, ?e2])" by simp
  have n: "non_overlapping [?e1, ?e2]"
    by (auto simp: non_overlapping_def span_end_def nth_Cons' less_Suc_eq)
  have r: "\<forall>el \<in> set [?e1, ?e2]. raw_matches ?t el"
    by (simp add: raw_matches_def span_end_def js_substring_def clamp_index_def)
  from splice_offset_integrity [OF s n r, of "\<lambda>el. ''<h2>'' @ stitle (detail el) @ ''</h2>''"]
  have "html (run_splice (\<lambda>el. ''<h2>'' @ stitle (detail el) @ ''</h2>'') ?t [?e1, ?e2])
      = ''ab<h2>x</h2>cd<h2>y</h2>ef''"
    by simp
  then show ?thesis .
qed

text \<open>
  C3. When the text at the offset-adjusted position differs from an element's recorded raw
  text, the iteration for that element changes neither the working text nor the cumulative
  offset and records one diagnostic; the loop then processes every remaining element, and
  its final text and offset are those of the run without the mismatching element.
\<close>

theorem splice_mismatch_skips_element:
  assumes "textAtPosition (splice_loop gen st xs) el \<noteq> fullMatch el"
  shows "html (splice_step gen (splice_loop gen st xs) el) = html (splice_loop gen st xs)
       \<and> offset (splice_step gen (splice_loop gen st xs) el) = offset (splice_loop gen st xs)
       \<and> errors (splice_step gen (splice_loop gen st xs) el)
           = errors (splice_loop gen st xs) @ [Mismatch (splice_index (splice_loop gen st xs) el)]
       \<and> splice_loop gen st (xs @ el # ys)
           = splice_loop gen (splice_step gen (splice_loop gen st xs) el) ys
       \<and> same_text (splice_loop gen st (xs @ el # ys)) (splice_loop gen st (xs @ ys))"
proof -
  let ?m = "splice_loop gen st xs"
  have step: "splice_step gen ?m el = ?m\<lparr>errors := errors ?m @ [Mismatch (splice_index ?m el)]\<rparr>"
    using assms by (simp add: splice_step_def Let_def)
  have "same_text (splice_step gen ?m el) ?m"
    by (simp add: step same_text_def)
  then have "same_text (splice_loop gen (splice_step gen ?m el) ys) (splice_loop gen ?m ys)"
    by (rule splice_loop_same_text)
  then show ?thesis
    by (simp add: step splice_loop_append)
qed

theorem splice_mismatch_skips_element_witness:
  "textAtPosition (splice_loop (\<lambda>el. ''<h2>x</h2>'') \<lparr>html = (''ab'' @ BS # ''section{y}''), offset = 0, errors = []\<rparr> [])
      \<lparr>startIndex = 1, fullMatch = ''zz'', detail = ItemizeD ''''\<rparr>
     \<noteq> fullMatch \<lparr>startIndex = 1, fullMatch = ''zz'', detail = ItemizeD ''''\<rparr>
   \<and> html (splice_loop (\<lambda>el. ''<h2>x</h2>'') \<lparr>html = (''ab'' @ BS # ''section{y}''), offset = 0, errors = []\<rparr>
        ([] @ \<lparr>startIndex = 1, fullMatch = ''zz'', detail = ItemizeD ''''\<rparr>
           # [\<lparr>startIndex = 2, fullMatch = (BS # ''section{y}''), detail = SectionD ''section'' ''y''\<rparr>]))
     = ''ab<h2>x</h2>''"
proof -
  let ?st = "\<lparr>html = (''ab'' @ BS # ''section{y}''), offset = 0, errors = []\<rparr>"
  let ?bad = "\<lparr>startIndex = 1, fullMatch = ''zz'', detail = ItemizeD ''''\<rparr>"
  let ?ok = "\<lparr>startIndex = 2, fullMatch = (BS # ''section{y}''), detail = SectionD ''section'' ''y''\<rparr>"
  let ?g = "\<lambda>el::element. ''<h2>x</h2>''"
  have m: "textAtPosition (splice_loop ?g ?st []) ?bad \<noteq> fullMatch ?bad"
    by (simp add: textAtPosition_def splice_index_def js_substring_def clamp_index_def)
  have r: "html (splice_loop ?g ?st ([] @ [?ok])) = ''ab<h2>x</h2>''"
    by (simp add: splice_step_def textAtPosition_def splice_index_def js_substring_def
        js_substring_from_def clamp_index_def Let_def)
  from splice_mismatch_skips_element [OF m, of "[?ok]"]
  have "same_text (splice_loop ?g ?st ([] @ ?bad # [?ok])) (splice_loop ?g ?st ([] @ [?ok]))"
    by (elim conjE)
  then have "html (splice_loop ?g ?st ([] @ ?bad # [?ok])) = html (splice_loop ?g ?st ([] @ [?ok]))"
    unfolding same_text_def by (elim conjE)
  with m r show ?thesis by (simp only: simp_thms)
qed

section \<open>Termination of extractProofs\<close>

lemma find_end_total:
  "\<exists>r. find_end text depth searchPos = Some r \<and>
       (\<forall>e. r = Closed e \<longrightarrow> searchPos \<le> e \<and> e + length end_proof \<le> length text)"
proof (induction "length text - searchPos" arbitrary: depth searchPos rule: less_induct)
  case less
  show ?case
  proof (cases "depth > 0 \<and> searchPos < length text")
    case False
    then show ?thesis by (subst find_end.simps) auto
  next
    case True
    show ?thesis
    proof (cases "search_lit end_proof (drop searchPos text)")
      case None
      with True show ?thesis by (subst find_end.simps) (simp add: Let_def)
    next
      case (Some e)
      from search_lit_bound [OF Some] True
      have eb: "searchPos + e + length end_proof \<le> length text" by simp arith
      show ?thesis
      proof (cases "case search_lit begin_proof (drop searchPos text) of None \<Rightarrow> False | Some b \<Rightarrow> b < e")
        case nested: True
        then obtain b where b: "search_lit begin_proof (drop searchPos text) = Some b" "b < e"
          by (auto split: option.splits)
        let ?sp = "searchPos + b + length begin_proof"
        have "length text - ?sp < length text - searchPos" using True length_begin_proof by arith
        from less [OF this, of "depth + 1"] obtain r where
          r: "find_end text (depth + 1) ?sp = Some r"
             "\<forall>e. r = Closed e \<longrightarrow> ?sp \<le> e \<and> e + length end_proof \<le> length text" by blast
        have "find_end text depth searchPos = Some r"
          using True Some b r(1) by (subst find_end.simps) (simp add: Let_def)
        with r(2) show ?thesis by auto
      next
        case closing: False
        show ?thesis
        proof (cases "depth - 1 = 0")
          case d0: True
          have "find_end text depth searchPos = Some (Closed (searchPos + e))"
            using True Some closing d0 by (subst find_end.simps) (simp add: Let_def)
          with eb show ?thesis by simp
        next
          case dn: False
          let ?sp = "searchPos + e + length end_proof"
          have "length text - ?sp < length text - searchPos" using True length_end_proof by arith
          from less [OF this, of "depth - 1"] obtain r where
            r: "find_end text (depth - 1) ?sp = Some r"
               "\<forall>e. r = Closed e \<longrightarrow> ?sp \<le> e \<and> e + length end_proof \<le> length text" by blast
          have "find_end text depth searchPos = Some r"
            using True Some closing dn r(1) by (subst find_end.simps) (simp add: Let_def)
          with r(2) show ?thesis by auto
        qed
      qed
    qed
  qed
qed



lemma digit_of_inj: "a < 10 \<Longrightarrow> b < 10 \<Longrightarrow> digit_of a = digit_of b \<Longrightarrow> a = b"
proof -
  assume a: "a < 10" and b: "b < 10" and e: "digit_of a = digit_of b"
  have d: "distinct ''0123456789''" by simp
  have "length ''0123456789'' = 10" by simp
  from nth_eq_iff_index_eq [OF d, of a b] a b e show "a = b"
    by (simp add: digit_of_def)
qed

lemma show_nat_nonempty: "show_nat n \<noteq> []"
  by (subst show_nat.simps) simp

lemma show_nat_inj: "show_nat m = show_nat n \<Longrightarrow> m = n"
proof (induction m arbitrary: n rule: show_nat.induct)
  case (1 m)
  show ?case
  proof (cases "m < 10")
    case m: True
    show ?thesis
    proof (cases "n < 10")
      case True
      have "show_nat m = [digit_of m]" using m by (subst show_nat.simps) simp
      moreover have "show_nat n = [digit_of n]" using True by (subst show_nat.simps) simp
      ultimately have "digit_of m = digit_of n" using "1.prems" by simp
      with m True show ?thesis using digit_of_inj by blast
    next
      case False
      have "show_nat n = show_nat (n div 10) @ [digit_of (n mod 10)]"
        using False by (subst show_nat.simps) simp
      moreover have "show_nat m = [digit_of m]" using m by (subst show_nat.simps) simp
      ultimately show ?thesis using "1.prems" show_nat_nonempty [of "n div 10"] by simp
    qed
  next
    case m: False
    have sm: "show_nat m = show_nat (m div 10) @ [digit_of (m mod 10)]"
      using m by (subst show_nat.simps) simp
    show ?thesis
    proof (cases "n < 10")
      case True
      then have "show_nat n = [digit_of n]" by (subst show_nat.simps) simp
      with sm "1.prems" show_nat_nonempty [of "m div 10"] show ?thesis by simp
    next
      case False
      then have sn: "show_nat n = show_nat (n div 10) @ [digit_of (n mod 10)]"
        by (subst show_nat.simps) simp
      from sm sn "1.prems" have a: "show_nat (m div 10) = show_nat (n div 10)"
        and b: "digit_of (m mod 10) = digit_of (n mod 10)" by simp_all
      from "1.IH" [OF m a] have "m div 10 = n div 10" .
      moreover from b have "m mod 10 = n mod 10" by (rule digit_of_inj [rotated 2]) simp_all
      ultimately show ?thesis by (metis div_mult_mod_eq)
    qed
  qed
qed

lemma disambiguate_from:
  "card {k. c \<le> k \<and> baseId @ ''-'' @ show_nat k \<in> set used} \<le> n \<Longrightarrow>
   \<exists>r. disambiguate used baseId (baseId @ ''-'' @ show_nat c) (c + 1) = Some r"
proof (induction n arbitrary: c)
  case 0
  let ?S = "{k. c \<le> k \<and> baseId @ ''-'' @ show_nat k \<in> set used}"
  have inj: "inj (\<lambda>k. baseId @ ''-'' @ show_nat k)"
    by (rule injI) (simp add: show_nat_inj)
  have "?S \<subseteq> (\<lambda>k. baseId @ ''-'' @ show_nat k) -` set used" by auto
  then have fin: "finite ?S" using finite_vimageI [OF _ inj] finite_subset by blast
  with 0 have "?S = {}" by simp
  then have "baseId @ ''-'' @ show_nat c \<notin> set used" by auto
  then show ?case by (subst disambiguate.simps) simp
next
  case (Suc n)
  let ?S = "\<lambda>c. {k. c \<le> k \<and> baseId @ ''-'' @ show_nat k \<in> set used}"
  have inj: "inj (\<lambda>k. baseId @ ''-'' @ show_nat k)"
    by (rule injI) (simp add: show_nat_inj)
  have "?S c \<subseteq> (\<lambda>k. baseId @ ''-'' @ show_nat k) -` set used" by auto
  then have fin: "finite (?S c)" using finite_vimageI [OF _ inj] finite_subset by blast
  show ?case
  proof (cases "baseId @ ''-'' @ show_nat c \<in> set used")
    case False
    then show ?thesis by (subst disambiguate.simps) simp
  next
    case True
    then have cin: "c \<in> ?S c" by simp
    have "?S (c + 1) = ?S c - {c}" by auto
    then have "card (?S (c + 1)) = card (?S c) - 1" using fin cin by simp
    moreover have "card (?S c) > 0" using fin cin card_gt_0_iff by blast
    ultimately have "card (?S (c + 1)) \<le> n" using Suc.prems by simp
    from Suc.IH [OF this] obtain r where
      "disambiguate used baseId (baseId @ ''-'' @ show_nat (c + 1)) (c + 1 + 1) = Some r" by blast
    with True show ?thesis by (subst disambiguate.simps) simp
  qed
qed

lemma disambiguate_total: "\<exists>r. disambiguate used baseId baseId 1 = Some r"
proof (cases "baseId \<in> set used")
  case False
  then show ?thesis by (subst disambiguate.simps) simp
next
  case True
  from disambiguate_from [of 1 baseId used, OF order_refl] obtain r where
    "disambiguate used baseId (baseId @ ''-'' @ show_nat 1) (1 + 1) = Some r" by blast
  with True show ?thesis by (subst disambiguate.simps) simp
qed

lemma choose_stable_id_total:
  "\<exists>r. choose_stable_id used labelMatch optionalTitle n = Some r"
  using disambiguate_total
  by (simp add: choose_stable_id_def Let_def split: option.splits)

lemma bracket_group_length:
  "bracket_group s = Some (t, r) \<Longrightarrow> length t + 2 \<le> length s"
proof -
  assume a: "bracket_group s = Some (t, r)"
  then obtain s1 where s1: "s = CHR ''['' # s1"
    by (cases s) (auto simp: bracket_group_def lit_def split: if_splits)
  from a s1 have t: "t = takeWhile (\<lambda>c. c \<noteq> CHR '']'') s1"
    and pre: "prefix '']'' (dropWhile (\<lambda>c. c \<noteq> CHR '']'') s1)"
    by (auto simp: bracket_group_def lit_def run1_def split: if_splits)
  from pre have ne: "dropWhile (\<lambda>c. c \<noteq> CHR '']'') s1 \<noteq> []"
    by (cases "dropWhile (\<lambda>c. c \<noteq> CHR '']'') s1") simp_all
  have "length (takeWhile (\<lambda>c. c \<noteq> CHR '']'') s1) + length (dropWhile (\<lambda>c. c \<noteq> CHR '']'') s1) = length s1"
    by (metis length_append takeWhile_dropWhile_id)
  moreover from ne have "length (dropWhile (\<lambda>c. c \<noteq> CHR '']'') s1) \<ge> 1"
    by (cases "dropWhile (\<lambda>c. c \<noteq> CHR '']'') s1") simp_all
  ultimately show ?thesis using s1 t by simp
qed

lemma startMatch_bound:
  assumes "startMatch s = Some (idx, t, mlen)"
  shows "idx + mlen \<le> length s \<and> length begin_proof \<le> mlen
       \<and> search_lit begin_proof s = Some idx"
proof -
  from assms obtain i where i: "search_lit begin_proof s = Some i"
    by (auto simp: startMatch_def split: option.splits)
  from search_lit_bound [OF i] have b: "i + length begin_proof \<le> length s" .
  show ?thesis
  proof (cases "bracket_group (drop (i + length begin_proof) s)")
    case None
    with assms i b show ?thesis by (simp add: startMatch_def)
  next
    case (Some p)
    obtain tt r where p: "p = (tt, r)" by (cases p)
    from bracket_group_length [OF Some [unfolded p]] b
    have "length tt + 2 \<le> length s - (i + length begin_proof)" by simp
    with assms i b Some p show ?thesis by (auto simp: startMatch_def)
  qed
qed

lemma proof_iteration_progress:
  assumes "pos st < length text"
  shows "\<exists>r. proof_iteration figureHtml clock text st = Some r \<and>
     (case r of
        Break \<Rightarrow> search_lit begin_proof (drop (pos st) text) = None
      | Continue st' \<Rightarrow> pos st < pos st' \<and> pos st' \<le> length text)"
proof (cases "startMatch (drop (pos st) text)")
  case None
  then have "search_lit begin_proof (drop (pos st) text) = None"
    by (simp add: startMatch_def split: option.splits prod.splits)
  with None show ?thesis by (simp add: proof_iteration_def)
next
  case (Some m)
  obtain idx t mlen where m: "m = (idx, t, mlen)" by (cases m)
  from startMatch_bound [OF Some [unfolded m]] assms
  have b: "pos st + idx + mlen \<le> length text" and l: "13 \<le> mlen"
    by (simp_all add: length_begin_proof) arith
  from find_end_total [of "text" 1 "pos st + idx + mlen"] obtain r where
    r: "find_end text 1 (pos st + idx + mlen) = Some r"
       "\<forall>e. r = Closed e \<longrightarrow> pos st + idx + mlen \<le> e \<and> e + length end_proof \<le> length text"
    by blast
  show ?thesis
  proof (cases r)
    case Unterminated
    with Some m r(1) b l show ?thesis by (simp add: proof_iteration_def Let_def)
  next
    case (Closed e)
    with r(2) have e: "pos st + idx + mlen \<le> e" "e + length end_proof \<le> length text" by simp_all
    obtain sid where "choose_stable_id (usedIds st)
        (first_match label_not_enclosed (js_substring text 0 (int (pos st + idx)))) t (proofCounter st) = Some sid"
      using choose_stable_id_total by blast
    with Some m r(1) Closed e l show ?thesis
      by (simp add: proof_iteration_def Let_def length_end_proof)
  qed
qed

lemma extract_loop_total:
  "\<exists>ps. extract_loop figureHtml clock text st = Some ps"
proof (induction "length text - pos st" arbitrary: st rule: less_induct)
  case less
  show ?case
  proof (cases "pos st < length text")
    case False
    then show ?thesis by (subst extract_loop.simps) simp
  next
    case True
    from proof_iteration_progress [OF True, of figureHtml clock] obtain r where
      r: "proof_iteration figureHtml clock text st = Some r"
         "case r of Break \<Rightarrow> search_lit begin_proof (drop (pos st) text) = None
          | Continue st' \<Rightarrow> pos st < pos st' \<and> pos st' \<le> length text" by blast
    show ?thesis
    proof (cases r)
      case Break
      with True r(1) show ?thesis by (subst extract_loop.simps) simp
    next
      case (Continue st')
      with r(2) have "pos st < pos st'" by simp
      with True have "length text - pos st' < length text - pos st" by arith
      from less [OF this] obtain ps where "extract_loop figureHtml clock text st' = Some ps" by blast
      with True r(1) Continue show ?thesis by (subst extract_loop.simps) simp
    qed
  qed
qed

text \<open>
  C10. extractProofs returns on every input text. Every iteration of the outer scan that
  starts inside the text returns, its inner loops included; it either leaves the loop, when
  no \<^verbatim>\<open>\begin{proof}\<close> is left after the cursor, or moves the cursor strictly forward
  and not beyond the end of the text.
\<close>

theorem extractProofs_terminates:
  "(\<exists>ps. extractProofs figureHtml clock text = Some ps) \<and>
   (pos st < length text \<longrightarrow>
      (\<exists>r. proof_iteration figureHtml clock text st = Some r \<and>
         (case r of
            Break \<Rightarrow> search_lit begin_proof (drop (pos st) text) = None
          | Continue st' \<Rightarrow> pos st < pos st' \<and> pos st' \<le> length text)))"
  using extract_loop_total [of figureHtml clock "text"] proof_iteration_progress [of st "text" figureHtml clock]
  by (simp add: extractProofs_def)

theorem extractProofs_terminates_witness:
  "(\<exists>ps. extractProofs (\<lambda>s. s) (\<lambda>n k. 0) (begin_proof @ ''x'' @ begin_proof @ ''y'' @ end_proof) = Some ps) \<and>
   (\<exists>r. proof_iteration (\<lambda>s. s) (\<lambda>n k. 0) (begin_proof @ ''x'' @ begin_proof @ ''y'' @ end_proof)
          \<lparr>pos = 0, usedIds = [], proofCounter = 0, proofs = []\<rparr> = Some r \<and>
        (case r of
           Break \<Rightarrow> search_lit begin_proof (drop 0 (begin_proof @ ''x'' @ begin_proof @ ''y'' @ end_proof)) = None
         | Continue st' \<Rightarrow> 0 < pos st' \<and> pos st' \<le> 39))"
proof -
  let ?t = "begin_proof @ ''x'' @ begin_proof @ ''y'' @ end_proof"
  let ?st = "\<lparr>pos = 0, usedIds = [], proofCounter = 0, proofs = []\<rparr>"
  have len: "length ?t = 39" by (simp add: begin_proof_def end_proof_def)
  have h: "pos ?st < length ?t" by (simp add: len)
  from extractProofs_terminates [of "\<lambda>s. s" "\<lambda>n k. 0" ?t ?st] h
  show ?thesis by (simp only: len proof_scan.simps simp_thms)
qed

section \<open>Stable ids\<close>

lemma proof_iteration_same:
  assumes "same_scan a b"
  shows "same_outcome (proof_iteration fh clock text a) (proof_iteration fh' clock' text b)"
proof (cases "startMatch (js_substring_from text (int (pos a)))")
  case None
  with assms show ?thesis by (simp add: proof_iteration_def same_scan_def)
next
  case (Some m)
  obtain idx t mlen where m: "m = (idx, t, mlen)" by (cases m)
  from assms have eq: "pos b = pos a" "usedIds b = usedIds a" "proofCounter b = proofCounter a"
    "map proof_view (proofs a) = map proof_view (proofs b)"
    by (simp_all add: same_scan_def)
  show ?thesis
  proof (cases "find_end text 1 (pos a + idx + mlen)")
    case None
    with Some m eq show ?thesis by (simp add: proof_iteration_def Let_def)
  next
    case fe: (Some r)
    show ?thesis
    proof (cases r)
      case Unterminated
      with Some m eq fe show ?thesis
        by (simp add: proof_iteration_def Let_def same_scan_def)
    next
      case (Closed e)
      show ?thesis
      proof (cases "choose_stable_id (usedIds a)
          (first_match label_not_enclosed (js_substring text 0 (int (pos a + idx)))) t (proofCounter a)")
        case None
        with Some m eq fe Closed show ?thesis by (simp add: proof_iteration_def Let_def)
      next
        case sid: (Some s)
        with Some m eq fe Closed show ?thesis
          by (simp add: proof_iteration_def Let_def same_scan_def proof_view_def proof_identity_def skeleton_def)
      qed
    qed
  qed
qed

lemma extract_loop_same:
  "same_scan a b \<Longrightarrow>
   map_option (map proof_view) (extract_loop fh clock text a)
     = map_option (map proof_view) (extract_loop fh' clock' text b)"
proof (induction "length text - pos a" arbitrary: a b rule: less_induct)
  case less
  from less.prems have pb: "pos b = pos a"
    and pr: "map proof_view (proofs a) = map proof_view (proofs b)"
    by (simp_all add: same_scan_def)
  have ua: "extract_loop fh clock text a =
     (if pos a < length text then
        do { r \<leftarrow> proof_iteration fh clock text a;
             (case r of Break \<Rightarrow> Some (proofs a) | Continue st' \<Rightarrow> extract_loop fh clock text st') }
      else Some (proofs a))"
    by (rule extract_loop.simps)
  have ub: "extract_loop fh' clock' text b =
     (if pos b < length text then
        do { r \<leftarrow> proof_iteration fh' clock' text b;
             (case r of Break \<Rightarrow> Some (proofs b) | Continue st' \<Rightarrow> extract_loop fh' clock' text st') }
      else Some (proofs b))"
    by (rule extract_loop.simps)
  show ?case
  proof (cases "pos a < length text")
    case False
    with pb pr show ?thesis by (simp add: ua ub)
  next
    case True
    from proof_iteration_progress [OF True, of fh clock] obtain r where
      r: "proof_iteration fh clock text a = Some r"
         "case r of Break \<Rightarrow> search_lit begin_proof (drop (pos a) text) = None
          | Continue st' \<Rightarrow> pos a < pos st' \<and> pos st' \<le> length text" by blast
    have so: "same_outcome (proof_iteration fh clock text a) (proof_iteration fh' clock' text b)"
      by (rule proof_iteration_same [OF less.prems])
    show ?thesis
    proof (cases r)
      case Break
      with r(1) so have "proof_iteration fh' clock' text b = Some Break"
        by (cases "proof_iteration fh' clock' text b") (auto elim: same_outcome.elims)
      with Break r(1) True pb pr show ?thesis by (simp add: ua ub)
    next
      case (Continue a')
      with r(1) so obtain b' where b': "proof_iteration fh' clock' text b = Some (Continue b')"
        "same_scan a' b'"
        by (cases "proof_iteration fh' clock' text b") (auto elim: same_outcome.elims)
      from Continue r(2) True have "length text - pos a' < length text - pos a" by simp arith
      from less.hyps [OF this b'(2)]
      have "map_option (map proof_view) (extract_loop fh clock text a')
          = map_option (map proof_view) (extract_loop fh' clock' text b')" .
      with Continue r(1) b'(1) True pb show ?thesis by (simp add: ua ub)
    qed
  qed
qed

lemma skeleton_fields [simp]:
  "startIndex (skeleton el) = startIndex el" "fullMatch (skeleton el) = fullMatch el"
  by (simp_all add: skeleton_def)

lemma persisted_id_skeleton: "persisted_id (skeleton el) = persisted_id el"
  by (cases "detail el") (simp_all add: persisted_id_def skeleton_def)

lemma persisted_ids_skeleton:
  assumes "map skeleton xs = map skeleton ys"
  shows "map persisted_id xs = map persisted_id ys"
proof -
  have "map persisted_id xs = map persisted_id (map skeleton xs)"
    by (simp add: persisted_id_skeleton)
  also have "\<dots> = map persisted_id (map skeleton ys)" by (simp only: assms)
  also have "\<dots> = map persisted_id ys" by (simp add: persisted_id_skeleton)
  finally show ?thesis .
qed

lemma skeleton_insort:
  "map skeleton (insort_key startIndex x ys) = insort_key startIndex (skeleton x) (map skeleton ys)"
  by (induction ys) simp_all

lemma skeleton_by_position: "map skeleton (by_position xs) = by_position (map skeleton xs)"
  unfolding by_position_def by (induction xs) (simp_all add: skeleton_insort)

lemma mask_box_skeleton: "mask_box (skeleton b) t = mask_box b t"
  by (simp add: mask_box_def)

lemma mask_boxes_skeleton:
  "map skeleton xs = map skeleton ys \<Longrightarrow> mask_boxes xs t = mask_boxes ys t"
proof (induction xs arbitrary: ys)
  case Nil
  then show ?case by (simp add: mask_boxes_def)
next
  case (Cons x xs)
  then obtain y ys' where ys: "ys = y # ys'" "skeleton x = skeleton y" "map skeleton xs = map skeleton ys'"
    by (cases ys) auto
  from Cons.IH [OF ys(3)] have "mask_boxes xs t = mask_boxes ys' t" .
  moreover have "mask_box x = mask_box y"
    using mask_box_skeleton [of x] mask_box_skeleton [of y] ys(2) by (auto simp: fun_eq_iff)
  ultimately show ?case using ys(1) by (simp add: mask_boxes_def)
qed

lemma theorem_elements_skeleton:
  "map skeleton (theorem_elements auxLabels fh typeCounts ms)
     = map skeleton (theorem_elements auxLabels fh' typeCounts ms)"
proof (induction ms arbitrary: typeCounts)
  case Nil
  show ?case by simp
next
  case (Cons m ms)
  obtain idx whole envName optionalTitle content where m: "m = (idx, whole, envName, optionalTitle, content)"
    by (cases m)
  have "skeleton (hd (theorem_elements auxLabels fh typeCounts (m # ms)))
      = skeleton (hd (theorem_elements auxLabels fh' typeCounts (m # ms)))"
    unfolding m by (simp add: Let_def skeleton_def)
  moreover have "tl (theorem_elements auxLabels fh typeCounts (m # ms))
      = theorem_elements auxLabels fh
          (typeCounts(envName \<mapsto> (case typeCounts envName of None \<Rightarrow> 0 | Some k \<Rightarrow> k) + 1)) ms"
    for fh
    unfolding m by (simp add: Let_def)
  moreover have "theorem_elements auxLabels fh typeCounts (m # ms) \<noteq> []" for fh
    unfolding m by (simp add: Let_def)
  ultimately show ?case
    using Cons.IH [of "typeCounts(envName \<mapsto> (case typeCounts envName of None \<Rightarrow> 0 | Some k \<Rightarrow> k) + 1)"]
    by (metis (no_types, lifting) list.collapse list.simps(9))
qed

lemma extractTheorems_skeleton:
  "map skeleton (extractTheorems auxLabels fh text) = map skeleton (extractTheorems auxLabels fh' text)"
  unfolding extractTheorems_def by (rule theorem_elements_skeleton)

lemma proof_identities_same:
  "map_option (map proof_view) (extractProofs fh clock text)
     = map_option (map proof_view) (extractProofs fh' clock' text)"
  unfolding extractProofs_def
  by (rule extract_loop_same) (simp add: same_scan_def)

lemma proof_view_fst:
  assumes "map proof_view xs = map proof_view ys"
  shows "map proof_identity xs = map proof_identity ys"
proof -
  have e: "map proof_identity zs = map fst (map proof_view zs)" for zs
    by (induction zs) (simp_all add: proof_view_def)
  show ?thesis by (simp only: e assms)
qed

lemma proof_view_snd:
  assumes "map proof_view xs = map proof_view ys"
  shows "map skeleton xs = map skeleton ys"
proof -
  have e: "map skeleton zs = map snd (map proof_view zs)" for zs
    by (induction zs) (simp_all add: proof_view_def)
  show ?thesis by (simp only: e assms)
qed

lemma collect_elements_persisted:
  "map_option (\<lambda>x. map persisted_id (allElements x)) (collect_elements auxLabels fh clock text)
     = map_option (\<lambda>x. map persisted_id (allElements x)) (collect_elements auxLabels fh' clock' text)"
proof (cases "extractProofs fh clock text")
  case None
  with proof_identities_same [of fh clock "text" fh' clock']
  have "extractProofs fh' clock' text = None" by simp
  with None show ?thesis by (simp add: collect_elements_def)
next
  case (Some ps)
  with proof_identities_same [of fh clock "text" fh' clock']
  obtain ps' where ps': "extractProofs fh' clock' text = Some ps'"
    and pv: "map proof_view ps = map proof_view ps'"
    by (cases "extractProofs fh' clock' text") auto
  let ?T = "extractTheorems auxLabels fh text" and ?T' = "extractTheorems auxLabels fh' text"
  have sk: "map skeleton (?T @ ps) = map skeleton (?T' @ ps')"
    using extractTheorems_skeleton [of auxLabels fh "text" fh'] proof_view_snd [OF pv] by simp
  have "map skeleton (by_position (?T @ ps)) = map skeleton (by_position (?T' @ ps'))"
    by (simp only: skeleton_by_position sk)
  from mask_boxes_skeleton [OF this]
  have m: "mask_boxes (by_position (?T @ ps)) text = mask_boxes (by_position (?T' @ ps')) text" .
  let ?R = "extractSections text @ extractFigures text
            @ extractEnumerates (mask_boxes (by_position (?T @ ps)) text)
            @ extractItemizes (mask_boxes (by_position (?T @ ps)) text)"
  have "map skeleton (?T @ ps @ ?R) = map skeleton (?T' @ ps' @ ?R)"
    using sk by simp
  then have "map skeleton (by_position (?T @ ps @ ?R)) = map skeleton (by_position (?T' @ ps' @ ?R))"
    by (simp only: skeleton_by_position)
  from persisted_ids_skeleton [OF this] Some ps' m show ?thesis
    by (simp add: collect_elements_def Let_def)
qed

text \<open>
  C6. On the text
  \<^verbatim>\<open>\begin{proof}[num 1]a\end{proof}\begin{proof}b\end{proof}\<close>
  the first proof gets the id \<^verbatim>\<open>proof-num-1\<close> from its title, and the second, which has
  neither label nor title and the ordinal 1, gets the same id from the numeric fallback: the
  fallback branch does not consult the set of used ids.
\<close>

theorem fallback_id_not_disambiguated:
  "map_option (map (\<lambda>el. (startIndex el, stable_id (detail el))))
     (extractProofs figureHtml clock
        (begin_proof @ ''[num 1]a'' @ end_proof @ begin_proof @ ''b'' @ end_proof))
   = Some [(0, ''proof-num-1''), (32, ''proof-num-1'')]"
  by code_simp

text \<open>
  C5, as stated, fails: the rendered content of a proof that holds a nested proof contains
  the reading of the clock, so two conversions of the same text differ.
\<close>

theorem subproof_id_follows_clock:
  "map_option (map (\<lambda>el. pcontent (detail el)))
      (extractProofs (\<lambda>s. s) (\<lambda>n k. 0)
         (begin_proof @ ''a'' @ begin_proof @ ''b'' @ end_proof @ ''c'' @ end_proof))
   \<noteq> map_option (map (\<lambda>el. pcontent (detail el)))
      (extractProofs (\<lambda>s. s) (\<lambda>n k. 1)
         (begin_proof @ ''a'' @ begin_proof @ ''b'' @ end_proof @ ''c'' @ end_proof))"
  by code_simp

text \<open>
  The ids on a text with three collapsible boxes and a proof: from the title, from the
  ordinal, from the label, and from the title of the proof.
\<close>

lemma persisted_ids_example:
  "map_option (\<lambda>x. map persisted_id (allElements x))
     (collect_elements Map.empty (\<lambda>s. s) (\<lambda>n k. n + k)
        (BS # ''begin{remark}[On Sets]a'' @ BS # ''end{remark}'' @
         BS # ''begin{example}b'' @ BS # ''end{example}'' @
         BS # ''begin{remark}'' @ BS # ''label{r:2}c'' @ BS # ''end{remark}'' @
         begin_proof @ ''[Main step]c'' @ end_proof))
   = Some [(0, Some ''collapsible-remark-on-sets''), (36, Some ''collapsible-example-1''),
           (65, Some ''collapsible-r:2''), (103, Some ''proof-main-step'')]"
  by code_simp

text \<open>
  C5, amended. The ids under which the client script keeps state are the same in every
  conversion of a text with a label table, whatever the clock reads and whatever the figure
  rendering gives: the stable ids of the top-level proofs, with their positions, source
  spans, titles and ordinals, and, over the merged list of all elements in document order,
  the stable id of every proof and the \<^verbatim>\<open>collapsibleId\<close> of every remark and example
  box. Only the ids of nested subproofs follow the clock.
\<close>

theorem persisted_ids_independent_of_clock:
  "map_option (map proof_identity) (extractProofs figureHtml clock text)
     = map_option (map proof_identity) (extractProofs figureHtml' clock' text) \<and>
   map_option (\<lambda>x. map persisted_id (allElements x)) (collect_elements auxLabels figureHtml clock text)
     = map_option (\<lambda>x. map persisted_id (allElements x)) (collect_elements auxLabels figureHtml' clock' text)"
proof
  show "map_option (map proof_identity) (extractProofs figureHtml clock text)
     = map_option (map proof_identity) (extractProofs figureHtml' clock' text)"
    using proof_identities_same [of figureHtml clock "text" figureHtml' clock']
    by (cases "extractProofs figureHtml clock text"; cases "extractProofs figureHtml' clock' text")
       (auto dest: proof_view_fst)
  show "map_option (\<lambda>x. map persisted_id (allElements x)) (collect_elements auxLabels figureHtml clock text)
     = map_option (\<lambda>x. map persisted_id (allElements x)) (collect_elements auxLabels figureHtml' clock' text)"
    by (rule collect_elements_persisted)
qed

section \<open>Nested proofs\<close>

text \<open>
  C1. On a proof containing a proof containing a proof,
  \<^verbatim>\<open>\begin{proof}A\begin{proof}B\begin{proof}C\end{proof}D\end{proof}E\end{proof}\<close>,
  extractProofs gives one top-level element whose source span is the whole text. Its
  rendered content holds a single collapsible sub-element: processNestedProofs pairs the
  first inner \<^verbatim>\<open>\begin{proof}\<close> with the first \<^verbatim>\<open>\end{proof}\<close>, so the innermost
  \<^verbatim>\<open>\begin{proof}\<close> stays as raw text inside the sub-element and the
  \<^verbatim>\<open>\end{proof}\<close> of the middle proof stays as raw text after it.
\<close>

theorem nested_proof_depth_three:
  "extractProofs figureHtml (\<lambda>n k. 17)
     (begin_proof @ ''A'' @ begin_proof @ ''B'' @ begin_proof @ ''C'' @ end_proof @ ''D'' @
      end_proof @ ''E'' @ end_proof)
   = Some [\<lparr>startIndex = 0,
            fullMatch = begin_proof @ ''A'' @ begin_proof @ ''B'' @ begin_proof @ ''C'' @ end_proof @
                        ''D'' @ end_proof @ ''E'' @ end_proof,
            detail = ProofD ''Proof''
               (''A'' @ subproof_html ''subproof-17-0'' None (''B'' @ begin_proof @ ''C'') @
                ''D'' @ end_proof @ ''E'')
               0 ''proof-num-0''\<rparr>]"
  by code_simp

section \<open>Enumerate environments\<close>

text \<open>
  C9. On the top-level environment
  \<^verbatim>\<open>\begin{enumerate}\setcounter{enumi}{2}\item a\end{enumerate}\<close>
  generateEnumerateHTML emits a list without start attribute and with the counter command
  left in the first item, while convertListsInContent, used for the same environment inside
  a theorem or proof body, emits \<^verbatim>\<open><ol start="3">\<close>.
\<close>

theorem top_level_enumerate_ignores_setcounter:
  "map (generate generateFigureHTML)
       (extractEnumerates (BS # ''begin{enumerate}'' @ BS # ''setcounter{enumi}{2}'' @
                           BS # ''item a'' @ BS # ''end{enumerate}''))
     = [''<ol>'' @ BS # ''setcounter{enumi}{2}</li><li>a</li></ol>'']
   \<and> convertListsInContent (BS # ''begin{enumerate}'' @ BS # ''setcounter{enumi}{2}'' @
                            BS # ''item a'' @ BS # ''end{enumerate}'')
     = ''<ol start=\"3\"><li>a</li></ol>''"
  by code_simp

section \<open>Masking\<close>

text \<open>
  C4. On \<^verbatim>\<open>\begin{theorem}\begin{figure}x\end{figure}\end{theorem}\<close> the merged
  element list holds the theorem at offset 0 and, as a top-level element of its own, the
  figure at offset 15 inside the theorem's span: figures are extracted from the unmasked
  text.
\<close>

theorem figure_inside_theorem_extracted:
  "map_option (\<lambda>x. map (\<lambda>el. (kind_of (detail el), startIndex el, length (fullMatch el))) (allElements x))
     (collect_elements auxLabels figureHtml clock
        (BS # ''begin{theorem}'' @ BS # ''begin{figure}x'' @ BS # ''end{figure}'' @ BS # ''end{theorem}''))
   = Some [(Theorem, 0, 55), (Figure, 15, 27)]"
  by code_simp

section \<open>The label table\<close>










section \<open>Reference linking on documents\<close>

lemma replace_all_skip:
  "(\<forall>i < length s. m (drop i s @ u) = None) \<Longrightarrow> replace_all m (s @ u) = s @ replace_all m u"
proof (induction s)
  case Nil
  show ?case by simp
next
  case (Cons c s)
  from Cons.prems have h: "m (c # s @ u) = None" by (auto dest: spec [of _ 0])
  have "\<forall>i < length s. m (drop i s @ u) = None"
  proof (intro allI impI)
    fix i assume "i < length s"
    with Cons.prems have "m (drop (Suc i) (c # s) @ u) = None" by (auto dest: spec [of _ "Suc i"])
    then show "m (drop i s @ u) = None" by simp
  qed
  from Cons.IH [OF this] h show ?case by simp
qed

lemma replace_all_step:
  "s \<noteq> [] \<Longrightarrow> m (s @ u) = Some (length s, r) \<Longrightarrow> replace_all m (s @ u) = r @ replace_all m u"
  by (cases s) simp_all

lemma lazy_until_match_skip:
  "(\<forall>i < length b. m (drop i b @ c) = None) \<Longrightarrow> m c = Some r \<Longrightarrow>
   lazy_until_match m (b @ c) = Some (b, r)"
proof (induction b)
  case Nil
  then show ?case by (cases c) simp_all
next
  case (Cons x b)
  from Cons.prems(1) have h: "m (x # b @ c) = None" by (auto dest: spec [of _ 0])
  have "\<forall>i < length b. m (drop i b @ c) = None"
  proof (intro allI impI)
    fix i assume "i < length b"
    with Cons.prems(1) have "m (drop (Suc i) (x # b) @ c) = None" by (auto dest: spec [of _ "Suc i"])
    then show "m (drop i b @ c) = None" by simp
  qed
  from Cons.IH [OF this Cons.prems(2)] h show ?case by simp
qed

lemma search_lit_prefix_drop:
  "prefix p (drop i s) \<Longrightarrow> search_lit p s \<noteq> None"
proof (induction s arbitrary: i)
  case Nil
  then show ?case by simp
next
  case (Cons c cs)
  show ?case
  proof (cases i)
    case 0
    with Cons.prems show ?thesis by simp
  next
    case (Suc j)
    with Cons.prems have "prefix p (drop j cs)" by simp
    from Cons.IH [OF this] show ?thesis by auto
  qed
qed

lemma prefix_straddle:
  assumes "prefix (c # d) (a @ u)" and "a \<noteq> []" and "u = [] \<or> hd u \<notin> set d"
  shows "prefix (c # d) a"
proof -
  from assms(1) consider "prefix (c # d) a" | us where "c # d = a @ us" "prefix us u"
    by (auto simp: prefix_append)
  then show ?thesis
  proof cases
    case 1
    then show ?thesis .
  next
    case 2
    show ?thesis
    proof (cases us)
      case Nil
      with 2 show ?thesis by simp
    next
      case (Cons h us')
      with 2(2) have "u \<noteq> []" "hd u = h" by (auto simp: prefix_def)
      moreover from assms(2) 2(1) Cons have "h \<in> set d" by (cases a) auto
      ultimately show ?thesis using assms(3) by simp
    qed
  qed
qed

lemma lit_SomeD: "lit p x = Some r \<Longrightarrow> x = p @ r"
  by (auto simp: lit_def prefix_def split: if_splits)

lemma lit_append [simp]: "lit p (p @ r) = Some r"
  by (simp add: lit_def)

lemma find_SomeD: "find P xs = Some x \<Longrightarrow> P x \<and> x \<in> set xs"
  by (induction xs) (auto split: if_splits)

lemma no_backslash_region:
  "BS \<notin> set w \<Longrightarrow> i < length w \<Longrightarrow> drop i w @ u \<noteq> [] \<and> hd (drop i w @ u) \<noteq> BS"
proof -
  assume a: "BS \<notin> set w" and b: "i < length w"
  then have "drop i w \<noteq> []" by simp
  moreover have "hd (drop i w) = w ! i" using b by (simp add: hd_drop_conv_nth)
  moreover have "w ! i \<in> set w" using b by simp
  ultimately show ?thesis using a by (cases "drop i w") auto
qed

lemma math_delimiter_no_backslash:
  "x \<noteq> [] \<Longrightarrow> hd x \<noteq> BS \<Longrightarrow> math_delimiter kw x = None"
  by (cases x) (simp_all add: math_delimiter_def lit_def)

lemma refRegex_no_backslash:
  "x \<noteq> [] \<Longrightarrow> hd x \<noteq> BS \<Longrightarrow> refRegex x = None"
  by (cases x) (simp_all add: refRegex_def lit_def)

lemma math_delimiter_SomeD:
  assumes "math_delimiter kw x = Some y"
  shows "\<exists>d \<in> set (math_delimiters kw). x = d @ y"
proof -
  from assms obtain r0 where r0: "lit (BS # kw @ ''{'') x = Some r0"
    by (auto simp: math_delimiter_def split: Option.bind_splits)
  from assms r0 obtain name where name: "find (\<lambda>n. prefix n r0) mathNames = Some name"
    by (auto simp: math_delimiter_def split: Option.bind_splits)
  from find_SomeD [OF name] have pn: "prefix name r0" and nm: "name \<in> set mathNames" by simp_all
  from pn obtain r1 where r1: "r0 = name @ r1" by (auto simp: prefix_def)
  from lit_SomeD [OF r0] r1 have x: "x = BS # kw @ ''{'' @ name @ r1" by simp
  from assms r0 name r1
  have fin: "lit ''}'' (case lit ''*'' r1 of Some r \<Rightarrow> r | None \<Rightarrow> r1) = Some y"
    by (simp add: math_delimiter_def Let_def cong: option.case_cong)
  show ?thesis
  proof (cases "lit ''*'' r1")
    case None
    with fin have "r1 = ''}'' @ y" by (auto dest: lit_SomeD)
    with x have "x = (BS # kw @ ''{'' @ name @ ''}'') @ y" by simp
    moreover have "BS # kw @ ''{'' @ name @ ''}'' \<in> set (math_delimiters kw)"
      using nm by (auto simp: math_delimiters_def)
    ultimately show ?thesis by blast
  next
    case (Some r)
    with fin have "r1 = ''*'' @ r" "r = ''}'' @ y" by (auto dest: lit_SomeD)
    with x have "x = (BS # kw @ ''{'' @ name @ ''*}'') @ y" by simp
    moreover have "BS # kw @ ''{'' @ name @ ''*}'' \<in> set (math_delimiters kw)"
      using nm by (auto simp: math_delimiters_def)
    ultimately show ?thesis by blast
  qed
qed

lemma math_delimiter_match:
  assumes "d \<in> set (math_delimiters kw)"
  shows "math_delimiter kw (d @ y) = Some y"
proof -
  from assms obtain n where n: "n \<in> set mathNames"
    and d: "d = BS # kw @ ''{'' @ n @ ''}'' \<or> d = BS # kw @ ''{'' @ n @ ''*}''"
    by (auto simp: math_delimiters_def)
  have f: "find (\<lambda>m. prefix m (n @ t)) mathNames = Some n" for t
    using n by (auto simp: mathNames_def)
  from d show ?thesis
  proof
    assume "d = BS # kw @ ''{'' @ n @ ''}''"
    then have "d @ y = (BS # kw @ ''{'') @ (n @ ''}'' @ y)" by simp
    then show ?thesis
      by (simp only: math_delimiter_def lit_append) (simp add: f lit_def)
  next
    assume "d = BS # kw @ ''{'' @ n @ ''*}''"
    then have "d @ y = (BS # kw @ ''{'') @ (n @ ''*}'' @ y)" by simp
    then show ?thesis
      by (simp only: math_delimiter_def lit_append) (simp add: f lit_def)
  qed
qed

lemma bs_or_end_stops: "bs_or_end u \<Longrightarrow> stops u"
  by (auto simp: bs_or_end_def stops_def)

lemma refRegex_SomeD:
  assumes "refRegex x = Some (k, l)"
  shows "\<exists>n \<in> set refNames. prefix (BS # n @ ''{'') x"
proof -
  from assms obtain r0 where r0: "lit [BS] x = Some r0"
    by (auto simp: refRegex_def split: Option.bind_splits)
  from assms r0 obtain name where name: "find (\<lambda>n. prefix (n @ ''{'') r0) refNames = Some name"
    by (auto simp: refRegex_def split: Option.bind_splits)
  from find_SomeD [OF name] lit_SomeD [OF r0] show ?thesis by auto
qed

lemma refRegex_match:
  assumes "valid_ref n l"
  shows "refRegex (command n l @ u) = Some (length (command n l), l)"
proof -
  from assms have n: "n \<in> set refNames" and l: "l \<noteq> []" "CHR ''}'' \<notin> set l"
    by (simp_all add: valid_ref_def)
  let ?r0 = "n @ CHR ''{'' # l @ CHR ''}'' # u"
  have 1: "lit [BS] (command n l @ u) = Some ?r0" by (simp add: lit_def command_def)
  have 2: "find (\<lambda>m. prefix (m @ ''{'') ?r0) refNames = Some n"
    using n by (auto simp: refNames_def)
  have 3: "drop (length n + 1) ?r0 = l @ CHR ''}'' # u" by simp
  have tw: "takeWhile (\<lambda>c. c \<noteq> CHR ''}'') (l @ CHR ''}'' # u) = l"
    using l(2) by (subst takeWhile_append2) auto
  have dw: "dropWhile (\<lambda>c. c \<noteq> CHR ''}'') (l @ CHR ''}'' # u) = CHR ''}'' # u"
    using l(2) by (subst dropWhile_append2) auto
  have 4: "run1 (\<lambda>c. c \<noteq> CHR ''}'') (l @ CHR ''}'' # u) = Some (l, CHR ''}'' # u)"
    using l(1) by (simp only: run1_def tw dw) simp
  have 5: "lit ''}'' (CHR ''}'' # u) = Some u" by (simp add: lit_def)
  have 6: "consumed (command n l @ u) u = length (command n l)" by (simp add: consumed_def)
  show ?thesis
    by (simp only: refRegex_def 1 2 3 4 5 6 Let_def Option.bind.bind_lunit prod.case)
qed

lemma quiet_no_trigger:
  "quiet s \<Longrightarrow> t \<in> set (ref_openers @ math_delimiters ''begin'' @ math_delimiters ''end'') \<Longrightarrow>
   \<not> prefix t (drop i s)"
  using search_lit_prefix_drop [of t i s]
  by (auto simp: quiet_def list_all_iff js_includes_def)

lemma quiet_refRegex:
  assumes "quiet s" and "stops u" and "i < length s"
  shows "refRegex (drop i s @ u) = None"
proof (rule ccontr)
  assume "refRegex (drop i s @ u) \<noteq> None"
  then obtain k l where "refRegex (drop i s @ u) = Some (k, l)" by auto
  from refRegex_SomeD [OF this] obtain n where n: "n \<in> set refNames"
    and p: "prefix (BS # n @ ''{'') (drop i s @ u)" by blast
  have "set (n @ ''{'') \<subseteq> set ''refqcC{''" using n by (auto simp: refNames_def)
  with assms(2) have "u = [] \<or> hd u \<notin> set (n @ ''{'')" by (auto simp: stops_def)
  from prefix_straddle [OF p _ this] assms(3) have "prefix (BS # n @ ''{'') (drop i s)" by simp
  moreover have "BS # n @ ''{'' \<in> set ref_openers" using n by (simp add: ref_openers_def)
  ultimately show False using quiet_no_trigger [OF assms(1), of "BS # n @ ''{''" i] by simp
qed

lemma delimiter_chars: "d \<in> set (math_delimiters kw) \<Longrightarrow> BS \<notin> set kw \<Longrightarrow> \<exists>w. d = BS # w \<and> BS \<notin> set w"
  by (auto simp: math_delimiters_def mathNames_def)

lemma quiet_math_delimiter:
  assumes "quiet s" and "bs_or_end u" and "i < length s" and "kw = ''begin'' \<or> kw = ''end''"
  shows "math_delimiter kw (drop i s @ u) = None"
proof (rule ccontr)
  assume "math_delimiter kw (drop i s @ u) \<noteq> None"
  then obtain y where "math_delimiter kw (drop i s @ u) = Some y" by auto
  from math_delimiter_SomeD [OF this] obtain d where d: "d \<in> set (math_delimiters kw)"
    and p: "prefix d (drop i s @ u)" by auto
  from assms(4) have "BS \<notin> set kw" by auto
  from delimiter_chars [OF d this] obtain w where w: "d = BS # w" "BS \<notin> set w" by blast
  with assms(2) have "u = [] \<or> hd u \<notin> set w" by (auto simp: bs_or_end_def)
  from prefix_straddle [OF p [unfolded w(1)] _ this] assms(3) w(1)
  have "prefix d (drop i s)" by simp
  moreover have "d \<in> set (ref_openers @ math_delimiters ''begin'' @ math_delimiters ''end'')"
    using d assms(4) by auto
  ultimately show False using quiet_no_trigger [OF assms(1), of d i] by simp
qed

lemma command_math_delimiter:
  assumes "valid_ref n l" and "i < length (command n l)" and "kw = ''begin'' \<or> kw = ''end''"
  shows "math_delimiter kw (drop i (command n l) @ u) = None"
proof (cases i)
  case 0
  from assms(1) have "n \<in> set refNames" by (simp add: valid_ref_def)
  with assms(3) 0 show ?thesis
    by (auto simp: refNames_def command_def math_delimiter_def lit_def)
next
  case (Suc j)
  from assms(1) have "BS \<notin> set (n @ ''{'' @ l @ ''}'')"
    by (auto simp: valid_ref_def refNames_def)
  moreover from assms(2) Suc have "j < length (n @ ''{'' @ l @ ''}'')" by (simp add: command_def)
  ultimately have "drop j (n @ ''{'' @ l @ ''}'') @ u \<noteq> [] \<and> hd (drop j (n @ ''{'' @ l @ ''}'') @ u) \<noteq> BS"
    by (rule no_backslash_region)
  then have "math_delimiter kw (drop j (n @ ''{'' @ l @ ''}'') @ u) = None"
    by (intro math_delimiter_no_backslash) simp_all
  with Suc show ?thesis by (simp add: command_def)
qed

lemma delimiter_refRegex:
  assumes "d \<in> set (math_delimiters kw)" and "i < length d" and "kw = ''begin'' \<or> kw = ''end''"
  shows "refRegex (drop i d @ u) = None"
proof -
  from assms(3) have "BS \<notin> set kw" by auto
  from delimiter_chars [OF assms(1) this] obtain w where w: "d = BS # w" "BS \<notin> set w" by blast
  show ?thesis
  proof (cases i)
    case 0
    from assms(1,3) 0 show ?thesis
      by (auto simp: math_delimiters_def mathNames_def refRegex_def lit_def refNames_def)
  next
    case (Suc j)
    with assms(2) w have "j < length w" by simp
    from no_backslash_region [OF w(2) this, of u]
    have "refRegex (drop j w @ u) = None" by (intro refRegex_no_backslash) simp_all
    with Suc w show ?thesis by simp
  qed
qed

lemma output_refRegex:
  assumes "BS \<notin> set q" and "i < length q"
  shows "refRegex (drop i q @ u) = None"
  using no_backslash_region [OF assms, of u] by (intro refRegex_no_backslash) simp_all

lemma silent_append:
  "silent m a (b @ t) \<Longrightarrow> silent m b t \<Longrightarrow> silent m (a @ b) t"
  unfolding silent_def
proof (intro allI impI)
  fix i
  assume a: "\<forall>i<length a. m (drop i a @ b @ t) = None"
    and b: "\<forall>i<length b. m (drop i b @ t) = None" and i: "i < length (a @ b)"
  show "m (drop i (a @ b) @ t) = None"
  proof (cases "i < length a")
    case True
    with a show ?thesis by simp
  next
    case False
    with i have "i - length a < length b" by simp
    with b False show ?thesis by simp
  qed
qed

lemma silent_Nil [simp]: "silent m [] t"
  by (simp add: silent_def)

lemma silent_weaken:
  "(\<And>x. m' x \<noteq> None \<Longrightarrow> m x \<noteq> None) \<Longrightarrow> silent m s t \<Longrightarrow> silent m' s t"
  unfolding silent_def by (metis not_None_eq)

lemma replace_all_silent:
  "silent m s u \<Longrightarrow> replace_all m (s @ u) = s @ replace_all m u"
  unfolding silent_def by (rule replace_all_skip)

lemma lazy_until_match_silent:
  "silent m b c \<Longrightarrow> m c = Some r \<Longrightarrow> lazy_until_match m (b @ c) = Some (b, r)"
  unfolding silent_def by (rule lazy_until_match_skip)

lemma command_bs: "bs_or_end (command n l @ t)"
  by (simp add: bs_or_end_def command_def)

lemma delimiter_bs: "d \<in> set (math_delimiters kw) \<Longrightarrow> bs_or_end (d @ t)"
  by (auto simp: bs_or_end_def math_delimiters_def)

lemma after_text:
  assumes "wf_inlines ok (Text s # r)" and "bs_or_end t"
  shows "quiet s \<and> wf_inlines ok r \<and> bs_or_end (inlines_source r @ t)"
proof (cases r)
  case Nil
  with assms show ?thesis by (simp add: inlines_source_def)
next
  case (Cons x r')
  show ?thesis
  proof (cases x)
    case (Text s')
    with Cons assms show ?thesis by simp
  next
    case (Ref n l)
    with Cons assms command_bs [of n l "inlines_source r' @ t"] show ?thesis
      by (simp add: inlines_source_def)
  qed
qed

lemma after_text_output:
  assumes "wf_inlines (\<lambda>l. plain_output (g l)) (Text s # r)" and "stops t"
  shows "quiet s \<and> wf_inlines (\<lambda>l. plain_output (g l)) r \<and> stops (inlines_output g r @ t)"
proof (cases r)
  case Nil
  with assms show ?thesis by (simp add: inlines_output_def)
next
  case (Cons x r')
  show ?thesis
  proof (cases x)
    case (Text s')
    with Cons assms show ?thesis by simp
  next
    case (Ref n l)
    with Cons assms have "plain_output (g l)" by simp
    then have "stops (g l @ inlines_output g r' @ t)"
      by (cases "g l") (auto simp: plain_output_def stops_def)
    with Cons Ref assms show ?thesis by (simp add: inlines_output_def)
  qed
qed

lemma inlines_no_delimiter:
  assumes "kw = ''begin'' \<or> kw = ''end''"
  shows "wf_inlines ok p \<Longrightarrow> bs_or_end t \<Longrightarrow> silent (math_delimiter kw) (inlines_source p) t"
proof (induction p)
  case Nil
  show ?case by (simp add: inlines_source_def)
next
  case (Cons x p)
  show ?case
  proof (cases x)
    case (Text s)
    from after_text [OF Cons.prems(1) [unfolded Text] Cons.prems(2)]
    have q: "quiet s" and w: "wf_inlines ok p" and b: "bs_or_end (inlines_source p @ t)" by simp_all
    have "silent (math_delimiter kw) s (inlines_source p @ t)"
      unfolding silent_def using quiet_math_delimiter [OF q b _ assms] by simp
    from silent_append [OF this Cons.IH [OF w Cons.prems(2)]] Text
    show ?thesis by (simp add: inlines_source_def)
  next
    case (Ref n l)
    with Cons.prems have v: "valid_ref n l" and w: "wf_inlines ok p" by simp_all
    have "silent (math_delimiter kw) (command n l) (inlines_source p @ t)"
      unfolding silent_def using command_math_delimiter [OF v _ assms] by simp
    from silent_append [OF this Cons.IH [OF w Cons.prems(2)]] Ref
    show ?thesis by (simp add: inlines_source_def)
  qed
qed

lemma reference_matcher_silent:
  "silent refRegex s t \<Longrightarrow>
   silent (\<lambda>s. case refRegex s of None \<Rightarrow> None | Some (n, label) \<Rightarrow> Some (n, f label)) s t"
  by (rule silent_weaken) (auto split: option.splits)

lemma replace_references_silent:
  "silent refRegex s t \<Longrightarrow> replace_references f (s @ t) = s @ replace_references f t"
  unfolding replace_references_def
  by (rule replace_all_silent, rule reference_matcher_silent)

lemma replace_references_command:
  assumes "valid_ref n l"
  shows "replace_references f (command n l @ t) = f l @ replace_references f t"
proof -
  have ne: "command n l \<noteq> []" by (simp add: command_def)
  have "(case refRegex (command n l @ t) of None \<Rightarrow> None | Some (n, label) \<Rightarrow> Some (n, f label))
      = Some (length (command n l), f l)"
    by (simp only: refRegex_match [OF assms] option.case prod.case)
  from replace_all_step [of "command n l"
      "\<lambda>s. case refRegex s of None \<Rightarrow> None | Some (n, label) \<Rightarrow> Some (n, f label)" t "f l", OF ne this]
  show ?thesis by (simp only: replace_references_def)
qed

lemma replace_references_inlines:
  "wf_inlines ok p \<Longrightarrow> bs_or_end t \<Longrightarrow>
   replace_references f (inlines_source p @ t) = inlines_output f p @ replace_references f t"
proof (induction p)
  case Nil
  show ?case by (simp add: inlines_source_def inlines_output_def)
next
  case (Cons x p)
  show ?case
  proof (cases x)
    case (Text s)
    from after_text [OF Cons.prems(1) [unfolded Text] Cons.prems(2)]
    have q: "quiet s" and w: "wf_inlines ok p" and b: "bs_or_end (inlines_source p @ t)" by simp_all
    have "silent refRegex s (inlines_source p @ t)"
      unfolding silent_def using quiet_refRegex [OF q bs_or_end_stops [OF b]] by simp
    from replace_references_silent [OF this, of f] Cons.IH [OF w Cons.prems(2)] Text
    show ?thesis by (simp add: inlines_source_def inlines_output_def)
  next
    case (Ref n l)
    with Cons.prems have v: "valid_ref n l" and w: "wf_inlines ok p" by simp_all
    from replace_references_command [OF v, of f "inlines_source p @ t"]
      Cons.IH [OF w Cons.prems(2)] Ref
    show ?thesis by (simp add: inlines_source_def inlines_output_def)
  qed
qed

lemma outputs_no_reference:
  "wf_inlines (\<lambda>l. plain_output (g l)) body \<Longrightarrow> stops t \<Longrightarrow>
   silent refRegex (inlines_output g body) t"
proof (induction body)
  case Nil
  show ?case by (simp add: inlines_output_def)
next
  case (Cons x p)
  show ?case
  proof (cases x)
    case (Text s)
    from after_text_output [OF Cons.prems(1) [unfolded Text] Cons.prems(2)]
    have q: "quiet s" and w: "wf_inlines (\<lambda>l. plain_output (g l)) p"
      and b: "stops (inlines_output g p @ t)" by simp_all
    have "silent refRegex s (inlines_output g p @ t)"
      unfolding silent_def using quiet_refRegex [OF q b] by simp
    from silent_append [OF this Cons.IH [OF w Cons.prems(2)]] Text
    show ?thesis by (simp add: inlines_output_def)
  next
    case (Ref n l)
    with Cons.prems have po: "plain_output (g l)" and w: "wf_inlines (\<lambda>l. plain_output (g l)) p"
      by simp_all
    from po have "BS \<notin> set (g l)" by (simp add: plain_output_def)
    then have "silent refRegex (g l) (inlines_output g p @ t)"
      unfolding silent_def using output_refRegex by simp
    from silent_append [OF this Cons.IH [OF w Cons.prems(2)]] Ref
    show ?thesis by (simp add: inlines_output_def)
  qed
qed

lemma after_para:
  assumes "wf_document auxLabels (Para p # r)"
  shows "wf_inlines (\<lambda>l. True) p \<and> wf_document auxLabels r
       \<and> bs_or_end (document_source r) \<and> bs_or_end (document_after_math auxLabels r)"
proof (cases r)
  case Nil
  with assms show ?thesis
    by (simp add: document_source_def document_after_math_def bs_or_end_def)
next
  case (Cons b r')
  show ?thesis
  proof (cases b)
    case (Para q)
    with Cons assms show ?thesis by simp
  next
    case (Math op body cl)
    with Cons assms have "op \<in> set (math_delimiters ''begin'')" by simp
    from delimiter_bs [OF this] Cons Math assms show ?thesis
      by (simp add: document_source_def document_after_math_def)
  qed
qed

lemma mathBlock_SomeD: "mathBlock x \<noteq> None \<Longrightarrow> math_delimiter ''begin'' x \<noteq> None"
  by (auto simp: mathBlock_def split: Option.bind_splits)

lemma mathBlock_match:
  assumes "op \<in> set (math_delimiters ''begin'')" and "cl \<in> set (math_delimiters ''end'')"
    and "wf_inlines ok body"
  shows "mathBlock (op @ inlines_source body @ cl @ rest) = Some (length (op @ inlines_source body @ cl))"
proof -
  have 1: "math_delimiter ''begin'' (op @ inlines_source body @ cl @ rest)
      = Some (inlines_source body @ cl @ rest)"
    by (rule math_delimiter_match [OF assms(1)])
  have "silent (math_delimiter ''end'') (inlines_source body) (cl @ rest)"
    by (rule inlines_no_delimiter [OF _ assms(3) delimiter_bs [OF assms(2)]]) simp
  from lazy_until_match_silent [OF this math_delimiter_match [OF assms(2)]]
  have 2: "lazy_until_match (math_delimiter ''end'') (inlines_source body @ cl @ rest)
      = Some (inlines_source body, rest)" .
  have 3: "consumed (op @ inlines_source body @ cl @ rest) rest = length (op @ inlines_source body @ cl)"
    by (simp add: consumed_def)
  show ?thesis
    by (simp only: mathBlock_def 1 2 3 Option.bind.bind_lunit prod.case)
qed

lemma delimiter_silent:
  "d \<in> set (math_delimiters kw) \<Longrightarrow> kw = ''begin'' \<or> kw = ''end'' \<Longrightarrow> silent refRegex d t"
  unfolding silent_def using delimiter_refRegex by blast

lemma replace_references_block:
  assumes "op \<in> set (math_delimiters ''begin'')" and "cl \<in> set (math_delimiters ''end'')"
    and "wf_inlines ok body"
  shows "replace_references f (op @ inlines_source body @ cl) = op @ inlines_output f body @ cl"
proof -
  have "replace_references f (op @ inlines_source body @ cl)
      = op @ replace_references f (inlines_source body @ cl)"
    by (rule replace_references_silent, rule delimiter_silent [OF assms(1)]) simp
  also have "replace_references f (inlines_source body @ cl)
      = inlines_output f body @ replace_references f cl"
    using delimiter_bs [OF assms(2), of "[]"]
    by (intro replace_references_inlines [OF assms(3)]) simp
  also have "replace_references f cl = cl"
    using replace_references_silent [OF delimiter_silent [OF assms(2)], where t = "[]" and f = f]
    by (simp add: replace_references_def)
  finally show ?thesis .
qed

lemma math_pass_document:
  "wf_document auxLabels doc \<Longrightarrow>
   math_pass auxLabels (document_source doc) = document_after_math auxLabels doc"
proof (induction doc)
  case Nil
  show ?case by (simp add: math_pass_def document_source_def document_after_math_def)
next
  case (Cons b r)
  let ?m = "\<lambda>s. case mathBlock s of
                   None \<Rightarrow> None
                 | Some n \<Rightarrow> Some (n, replace_references (math_reference auxLabels) (take n s))"
  show ?case
  proof (cases b)
    case (Para p)
    from after_para [OF Cons.prems [unfolded Para]]
    have w: "wf_inlines (\<lambda>l. True) p" and wr: "wf_document auxLabels r"
      and bs: "bs_or_end (document_source r)" by simp_all
    have "silent (math_delimiter ''begin'') (inlines_source p) (document_source r)"
      by (rule inlines_no_delimiter [OF _ w bs]) simp
    then have "silent ?m (inlines_source p) (document_source r)"
    proof (rule silent_weaken [rotated])
      fix x assume "?m x \<noteq> None"
      then have "mathBlock x \<noteq> None" by (auto split: option.splits)
      then show "math_delimiter ''begin'' x \<noteq> None" by (rule mathBlock_SomeD)
    qed
    from replace_all_silent [OF this] Cons.IH [OF wr] Para
    show ?thesis
      by (simp add: math_pass_def document_source_def document_after_math_def)
  next
    case (Math op body cl)
    with Cons.prems have o: "op \<in> set (math_delimiters ''begin'')"
      and c: "cl \<in> set (math_delimiters ''end'')"
      and w: "wf_inlines (\<lambda>l. plain_output (math_reference auxLabels l)) body"
      and wr: "wf_document auxLabels r" by simp_all
    let ?B = "op @ inlines_source body @ cl"
    have ne: "?B \<noteq> []" using o by (auto simp: math_delimiters_def)
    have "mathBlock (?B @ document_source r) = Some (length ?B)"
      using mathBlock_match [OF o c w, of "document_source r"] by simp
    then have "?m (?B @ document_source r)
        = Some (length ?B, replace_references (math_reference auxLabels) ?B)" by simp
    from replace_all_step [of ?B ?m "document_source r"
        "replace_references (math_reference auxLabels) ?B", OF ne this]
    have "math_pass auxLabels (?B @ document_source r)
        = replace_references (math_reference auxLabels) ?B @ math_pass auxLabels (document_source r)"
      by (simp only: math_pass_def)
    with replace_references_block [OF o c w, of "math_reference auxLabels"] Cons.IH [OF wr] Math
    show ?thesis by (simp add: document_source_def document_after_math_def)
  qed
qed

lemma processReferences_document:
  "wf_document auxLabels doc \<Longrightarrow>
   processReferences auxLabels (document_after_math auxLabels doc) = document_linked auxLabels doc"
proof (induction doc)
  case Nil
  show ?case
    by (simp add: processReferences_def replace_references_def document_linked_def
        document_after_math_def)
next
  case (Cons b r)
  show ?case
  proof (cases b)
    case (Para p)
    from after_para [OF Cons.prems [unfolded Para]]
    have w: "wf_inlines (\<lambda>l. True) p" and wr: "wf_document auxLabels r"
      and bs: "bs_or_end (document_after_math auxLabels r)" by simp_all
    from replace_references_inlines [OF w bs, of "prose_reference auxLabels"] Cons.IH [OF wr] Para
    show ?thesis
      by (simp add: processReferences_def document_linked_def document_after_math_def)
  next
    case (Math op body cl)
    with Cons.prems have o: "op \<in> set (math_delimiters ''begin'')"
      and c: "cl \<in> set (math_delimiters ''end'')"
      and w: "wf_inlines (\<lambda>l. plain_output (math_reference auxLabels l)) body"
      and wr: "wf_document auxLabels r" by simp_all
    let ?t = "document_after_math auxLabels r"
    let ?g = "math_reference auxLabels"
    have s3: "silent refRegex cl ?t" by (rule delimiter_silent [OF c]) simp
    have "stops (cl @ ?t)" by (rule bs_or_end_stops [OF delimiter_bs [OF c]])
    from outputs_no_reference [OF w this]
    have s2: "silent refRegex (inlines_output ?g body) (cl @ ?t)" .
    have s1: "silent refRegex op ((inlines_output ?g body @ cl) @ ?t)"
      by (rule delimiter_silent [OF o]) simp
    from silent_append [OF s1 silent_append [OF s2 s3]]
    have "silent refRegex (op @ inlines_output ?g body @ cl) ?t" by simp
    from replace_references_silent [OF this, of "prose_reference auxLabels"] Cons.IH [OF wr] Math
    show ?thesis
      by (simp add: processReferences_def document_linked_def document_after_math_def)
  qed
qed

text \<open>
  What the two passes compute on a well-formed document: every reference command inside a
  display-math block (align, equation or gather, starred or not) is replaced by what
  \<^const>\<open>math_reference\<close> makes of its label, every reference command outside by what
  \<^const>\<open>prose_reference\<close> makes of it, and everything else is unchanged. The example has
  a resolved and an unresolved label in prose and in a math block.
\<close>

lemma references_linked:
  assumes "wf_document auxLabels doc"
  shows "link_references auxLabels (document_source doc) = document_linked auxLabels doc"
  using math_pass_document [OF assms] processReferences_document [OF assms]
  by (simp add: link_references_def)

lemma references_linked_example:
  "link_references demo_labels (document_source demo_doc)
   = ''see <a href=\"#equation.1.2\" class=\"ref-link\">1.2</a> and '' @
     ''<span class=\"ref-unknown\" title=\"Reference not found: zz\">[zz?]</span>'' @
     BS # ''begin{align}x = '' @ BS # ''alpha by 1.2[zz?]'' @ BS # ''end{align} done''"
proof -
  have w: "wf_document demo_labels demo_doc" by code_simp
  have "document_linked demo_labels demo_doc
      = ''see <a href=\"#equation.1.2\" class=\"ref-link\">1.2</a> and '' @
        ''<span class=\"ref-unknown\" title=\"Reference not found: zz\">[zz?]</span>'' @
        BS # ''begin{align}x = '' @ BS # ''alpha by 1.2[zz?]'' @ BS # ''end{align} done''"
    by code_simp
  with references_linked [OF w] show ?thesis by (rule trans)
qed

text \<open>
  C8. A label that has no entry in the table but is the name of a property that the table
  inherits is not unresolved for the code: with an empty table, \<^verbatim>\<open>\ref{toString}\<close>
  inside an align block becomes the text \<^verbatim>\<open>undefined\<close> instead of
  \<^verbatim>\<open>[toString?]\<close>, and \<^verbatim>\<open>\ref{constructor}\<close> in prose becomes an anchor showing
  \<^verbatim>\<open>undefined\<close> instead of the flagged marker, which the unresolved label
  \<^verbatim>\<open>zz\<close> beside it does get.
\<close>

theorem inherited_name_not_flagged:
  "link_references Map.empty
     (BS # ''begin{align}x = '' @ BS # ''ref{toString}'' @ BS # ''end{align} see '' @
      BS # ''ref{constructor} and '' @ BS # ''ref{zz}'')
   = BS # ''begin{align}x = undefined'' @ BS # ''end{align} see '' @
     ''<a href=\"#constructor\" class=\"ref-link\">undefined</a> and '' @
     ''<span class=\"ref-unknown\" title=\"Reference not found: zz\">[zz?]</span>''"
  by code_simp

end
